theory Spec2Isabelle
  imports Main "HOL-Library.Sublist" "HOL-Library.Char_ord" "HOL-Library.List_Lexorder"
begin

section \<open>A backtracking matcher for the regular expressions of the sources\<close>

type_synonym caps = "(nat \<times> string) list"

datatype cset = Is char | OneOf "char list" | NoneOf "char list" | AnyChar | SpaceChar | DigitChar

datatype rx =
    Eps
  | Atom cset
  | Seq rx rx
  | Star rx
  | LazyStar rx
  | Grp nat rx
  | NotBehind char
  | NotAhead char

definition is_space :: "char \<Rightarrow> bool" where
  "is_space c = (c \<in> set [CHR 0x09, CHR 0x0A, CHR 0x0B, CHR 0x0C, CHR 0x0D, CHR 0x20, CHR 0xA0])"

definition is_digit :: "char \<Rightarrow> bool" where
  "is_digit c = (c \<in> set ''0123456789'')"

fun accepts :: "cset \<Rightarrow> char \<Rightarrow> bool" where
  "accepts (Is c) x = (x = c)"
| "accepts (OneOf cs) x = (x \<in> set cs)"
| "accepts (NoneOf cs) x = (x \<notin> set cs)"
| "accepts AnyChar x = True"
| "accepts SpaceChar x = is_space x"
| "accepts DigitChar x = is_digit x"

definition behind :: "string \<Rightarrow> string \<Rightarrow> char option" where
  "behind inp s = (let i = length inp - length s in if i = 0 then None else Some (inp ! (i - 1)))"

function ms :: "string \<Rightarrow> rx \<Rightarrow> string \<times> caps \<Rightarrow> (string \<times> caps) list" where
  "ms inp Eps st = [st]"
| "ms inp (Atom k) st =
     (case fst st of [] \<Rightarrow> [] | x # xs \<Rightarrow> if accepts k x then [(xs, snd st)] else [])"
| "ms inp (Seq a b) st =
     concat (map (\<lambda>st'. if length (fst st') \<le> length (fst st) then ms inp b st' else [])
                 (ms inp a st))"
| "ms inp (Star a) st =
     concat (map (\<lambda>st'. if length (fst st') < length (fst st) then ms inp (Star a) st' else [])
                 (ms inp a st)) @ [st]"
| "ms inp (LazyStar a) st =
     st # concat (map (\<lambda>st'. if length (fst st') < length (fst st) then ms inp (LazyStar a) st' else [])
                      (ms inp a st))"
| "ms inp (Grp n a) st =
     map (\<lambda>st'. (fst st', (n, take (length (fst st) - length (fst st')) (fst st)) # snd st'))
         (ms inp a st)"
| "ms inp (NotBehind c) st = (if behind inp (fst st) = Some c then [] else [st])"
| "ms inp (NotAhead c) st =
     (case fst st of [] \<Rightarrow> [st] | x # _ \<Rightarrow> if x = c then [] else [st])"
  by pat_completeness auto
termination
  by (relation "measures [\<lambda>(inp, r, st). length (fst st), \<lambda>(inp, r, st). size r]") auto

declare ms.simps(4) [simp del] ms.simps(5) [simp del]

definition Plus :: "rx \<Rightarrow> rx" where
  "Plus r = Seq r (Star r)"

fun lits :: "string \<Rightarrow> rx" where
  "lits [] = Eps"
| "lits [c] = Atom (Is c)"
| "lits (c # cs) = Seq (Atom (Is c)) (lits cs)"

fun seqs :: "rx list \<Rightarrow> rx" where
  "seqs [] = Eps"
| "seqs [r] = r"
| "seqs (r # rs) = Seq r (seqs rs)"

definition match_at :: "string \<Rightarrow> rx \<Rightarrow> string \<Rightarrow> (string \<times> caps) option" where
  "match_at inp r s = (case ms inp r (s, []) of [] \<Rightarrow> None | st # _ \<Rightarrow> Some st)"

datatype piece = Keep char | Match string caps

function pieces :: "string \<Rightarrow> rx \<Rightarrow> string \<Rightarrow> piece list" where
  "pieces inp r s =
     (case match_at inp r s of
        None \<Rightarrow> (case s of [] \<Rightarrow> [] | x # xs \<Rightarrow> Keep x # pieces inp r xs)
      | Some st \<Rightarrow>
          if length (fst st) < length s
          then Match (take (length s - length (fst st)) s) (snd st) # pieces inp r (fst st)
          else Match [] (snd st) # (case s of [] \<Rightarrow> [] | x # xs \<Rightarrow> Keep x # pieces inp r xs))"
  by pat_completeness auto
termination
  by (relation "measure (\<lambda>(inp, r, s). length s)") auto

declare pieces.simps [simp del]

section \<open>Strings, numbers and literal search\<close>

abbreviation dq :: char where "dq \<equiv> CHR 0x22"
abbreviation nl :: char where "nl \<equiv> CHR 0x0A"
abbreviation bksl :: char where "bksl \<equiv> CHR 0x5C"

definition digit_char :: "nat \<Rightarrow> char" where
  "digit_char d = ''0123456789'' ! d"

definition digit_val :: "char \<Rightarrow> nat" where
  "digit_val c = of_char c - 48"

function show_nat :: "nat \<Rightarrow> string" where
  "show_nat n = (if n < 10 then [digit_char n] else show_nat (n div 10) @ [digit_char (n mod 10)])"
  by pat_completeness auto
termination
  by (relation "measure id") auto

declare show_nat.simps [simp del]

text \<open>
  Numbers. A JavaScript Number that holds a non-negative integer is modelled by that
  integer; the natural number \<open>2 ^ 1024\<close> stands for \<^verbatim>\<open>Infinity\<close>. \<open>to_double v\<close> is the
  Number nearest to the integer \<open>v\<close> (round to nearest, ties to the even significand), which
  is what a conversion from decimal digits and an addition return: exact below \<open>2 ^ 53\<close>,
  rounded above (\<open>2 ^ 53 + 1\<close> gives \<open>2 ^ 53\<close>).
  Two conversions are left to the host by ECMAScript or give something else than the
  decimal digits of the integer, and are parameters: \<^verbatim>\<open>parseInt\<close> of more than 20
  significant digits (the implementation may replace the digits after the 20th by zeros),
  and the string form of a Number above \<open>2 ^ 53\<close> (the shortest digits that read back as
  the same Number, padded with zeros; exponent form from \<open>10 ^ 21\<close> on; or
  \<^verbatim>\<open>Infinity\<close>). Up to \<open>2 ^ 53\<close> the string form of an integer is its decimal digits.
\<close>

record numerics =
  parseLong :: "string \<Rightarrow> nat"
  showLarge :: "nat \<Rightarrow> string"

function dexp :: "nat \<Rightarrow> nat" where
  "dexp v = (if v < 2 ^ 53 then 0 else Suc (dexp (v div 2)))"
  by pat_completeness auto
termination
  by (relation "measure id") auto

declare dexp.simps [simp del]

definition to_double :: "nat \<Rightarrow> nat" where
  "to_double v =
     (if v < 2 ^ 53 then v
      else if 2 ^ 1024 - 2 ^ 970 \<le> v then 2 ^ 1024
      else let e = dexp v; q = v div 2 ^ e; r = v mod 2 ^ e; half = 2 ^ (e - 1)
           in if half < r \<or> (r = half \<and> odd q) then (q + 1) * 2 ^ e else q * 2 ^ e)"

definition parseInt :: "numerics \<Rightarrow> string \<Rightarrow> nat" where
  "parseInt nm s =
     (let ds = takeWhile is_digit s;
          significant = dropWhile (\<lambda>c. c = CHR ''0'') ds
      in if length significant \<le> 20
         then to_double (foldl (\<lambda>a c. 10 * a + digit_val c) 0 ds)
         else parseLong nm s)"

definition numStr :: "numerics \<Rightarrow> nat \<Rightarrow> string" where
  "numStr nm n = (if n \<le> 2 ^ 53 then show_nat n else showLarge nm n)"

fun indexOf :: "string \<Rightarrow> string \<Rightarrow> nat option" where
  "indexOf needle [] = (if needle = [] then Some 0 else None)"
| "indexOf needle (x # xs) =
     (if prefix needle (x # xs) then Some 0 else map_option Suc (indexOf needle xs))"

fun lastIndexOf :: "string \<Rightarrow> string \<Rightarrow> nat option" where
  "lastIndexOf needle [] = (if needle = [] then Some 0 else None)"
| "lastIndexOf needle (x # xs) =
     (case lastIndexOf needle xs of
        Some i \<Rightarrow> Some (Suc i)
      | None \<Rightarrow> if prefix needle (x # xs) then Some 0 else None)"

definition replace_first :: "string \<Rightarrow> string \<Rightarrow> string \<Rightarrow> string" where
  "replace_first needle repl s =
     (case indexOf needle s of
        None \<Rightarrow> s
      | Some i \<Rightarrow> take i s @ repl @ drop (i + length needle) s)"

definition hits :: "piece list \<Rightarrow> (string \<times> caps) list" where
  "hits ps = concat (map (\<lambda>p. case p of Keep _ \<Rightarrow> [] | Match m cs \<Rightarrow> [(m, cs)]) ps)"

definition matches_of :: "rx \<Rightarrow> string \<Rightarrow> (string \<times> caps) list" where
  "matches_of r s = hits (pieces s r s)"

definition cap :: "nat \<Rightarrow> caps \<Rightarrow> string" where
  "cap n cs = (case map_of cs n of None \<Rightarrow> [] | Some v \<Rightarrow> v)"

section \<open>Packages\<close>

type_synonym archive = "string \<rightharpoonup> string"

datatype buffer = NotAnArchive | Archive archive

datatype error =
    ZipError
  | NoDocumentLoaded
  | NoDocumentXml
  | RegexSyntaxError
  | TextNotFound string
  | FailedToRead
  | CriticalTemplateError
  | UnmodelledPattern

abbreviation docPath :: string where "docPath \<equiv> ''word/document.xml''"
abbreviation relsPath :: string where "relsPath \<equiv> ''word/_rels/document.xml.rels''"

section \<open>DocxAppender\<close>

definition RID_REGEX :: rx where
  "RID_REGEX = seqs [lits ''Id='', Atom (Is dq), lits ''rId'', Grp 1 (Plus (Atom DigitChar)), Atom (Is dq)]"

definition ridOf :: "numerics \<Rightarrow> string \<Rightarrow> nat" where
  "ridOf nm m = parseInt nm (case matches_of RID_REGEX m of
                         [] \<Rightarrow> ''0''
                       | (_, cs) # _ \<Rightarrow> (if cap 1 cs = [] then ''0'' else cap 1 cs))"

definition getLastRId :: "numerics \<Rightarrow> string \<Rightarrow> nat" where
  "getLastRId nm relsXml =
     foldl (\<lambda>maxId m. let id = ridOf nm m in if id > maxId then id else maxId) 0
           (map fst (matches_of RID_REGEX relsXml))"

definition relTag :: "string \<Rightarrow> string \<Rightarrow> string" where
  "relTag rId target =
     ''<Relationship Id='' @ [dq] @ rId @ [dq] @ '' Type='' @ [dq]
       @ ''http://schemas.openxmlformats.org/officeDocument/2006/relationships/image'' @ [dq]
       @ '' Target='' @ [dq] @ target @ [dq] @ ''/>''"

definition addRelationship :: "string \<Rightarrow> string \<Rightarrow> string \<Rightarrow> string" where
  "addRelationship xml rId target =
     replace_first ''</Relationships>'' (relTag rId target @ ''</Relationships>'') xml"

definition generatePageBreakAndImageXml :: "string \<Rightarrow> string" where
  "generatePageBreakAndImageXml rId = concat [
      [nl],
      ''    <w:p>'' @ [nl],
      ''      <w:r>'' @ [nl],
      ''        <w:br w:type='' @ [dq] @ ''page'' @ [dq] @ ''/>'' @ [nl],
      ''      </w:r>'' @ [nl],
      ''    </w:p>'' @ [nl],
      ''    <w:p>'' @ [nl],
      ''      <w:r>'' @ [nl],
      ''        <w:drawing>'' @ [nl],
      ''          <wp:inline distT='' @ [dq] @ ''0'' @ [dq] @ '' distB='' @ [dq] @ ''0'' @ [dq] @ '' distL='' @ [dq] @ ''0'' @ [dq] @ '' distR='' @ [dq] @ ''0'' @ [dq] @ ''>'' @ [nl],
      ''            <wp:extent cx='' @ [dq] @ ''5953500'' @ [dq] @ '' cy='' @ [dq] @ ''8419500'' @ [dq] @ ''/>'' @ [nl],
      ''            <wp:effectExtent l='' @ [dq] @ ''0'' @ [dq] @ '' t='' @ [dq] @ ''0'' @ [dq] @ '' r='' @ [dq] @ ''0'' @ [dq] @ '' b='' @ [dq] @ ''0'' @ [dq] @ ''/>'' @ [nl],
      ''            <wp:docPr id='' @ [dq] @ ''1'' @ [dq] @ '' name='' @ [dq] @ ''Appendix Image'' @ [dq] @ ''/>'' @ [nl],
      ''            <wp:cNvGraphicFramePr>'' @ [nl],
      ''              <a:graphicFrameLocks xmlns:a='' @ [dq] @ ''http://schemas.openxmlformats.org/drawingml/2006/main'' @ [dq] @ '' noChangeAspect='' @ [dq] @ ''1'' @ [dq] @ ''/>'' @ [nl],
      ''            </wp:cNvGraphicFramePr>'' @ [nl],
      ''            <a:graphic xmlns:a='' @ [dq] @ ''http://schemas.openxmlformats.org/drawingml/2006/main'' @ [dq] @ ''>'' @ [nl],
      ''              <a:graphicData uri='' @ [dq] @ ''http://schemas.openxmlformats.org/drawingml/2006/picture'' @ [dq] @ ''>'' @ [nl],
      ''                <pic:pic xmlns:pic='' @ [dq] @ ''http://schemas.openxmlformats.org/drawingml/2006/picture'' @ [dq] @ ''>'' @ [nl],
      ''                  <pic:nvPicPr>'' @ [nl],
      ''                    <pic:cNvPr id='' @ [dq] @ ''0'' @ [dq] @ '' name='' @ [dq] @ ''Picture'' @ [dq] @ ''/>'' @ [nl],
      ''                    <pic:cNvPicPr/>'' @ [nl],
      ''                  </pic:nvPicPr>'' @ [nl],
      ''                  <pic:blipFill>'' @ [nl],
      ''                    <a:blip r:embed='' @ [dq] @ rId @ [dq] @ ''/>'' @ [nl],
      ''                    <a:stretch>'' @ [nl],
      ''                      <a:fillRect/>'' @ [nl],
      ''                    </a:stretch>'' @ [nl],
      ''                  </pic:blipFill>'' @ [nl],
      ''                  <pic:spPr>'' @ [nl],
      ''                    <a:xfrm>'' @ [nl],
      ''                      <a:off x='' @ [dq] @ ''0'' @ [dq] @ '' y='' @ [dq] @ ''0'' @ [dq] @ ''/>'' @ [nl],
      ''                      <a:ext cx='' @ [dq] @ ''5953500'' @ [dq] @ '' cy='' @ [dq] @ ''8419500'' @ [dq] @ ''/>'' @ [nl],
      ''                    </a:xfrm>'' @ [nl],
      ''                    <a:prstGeom prst='' @ [dq] @ ''rect'' @ [dq] @ ''>'' @ [nl],
      ''                      <a:avLst/>'' @ [nl],
      ''                    </a:prstGeom>'' @ [nl],
      ''                  </pic:spPr>'' @ [nl],
      ''                </pic:pic>'' @ [nl],
      ''              </a:graphicData>'' @ [nl],
      ''            </a:graphic>'' @ [nl],
      ''          </wp:inline>'' @ [nl],
      ''        </w:drawing>'' @ [nl],
      ''      </w:r>'' @ [nl],
      ''    </w:p>'' @ [nl],
      ''    '']"

text \<open>
  \<open>now index\<close> is the value \<^verbatim>\<open>Date.now()\<close> returns while image \<open>index\<close> is processed. A
  time value is an integer of at most \<open>8.64 * 10 ^ 15\<close> and an array index is below
  \<open>2 ^ 32\<close>; both are below \<open>2 ^ 53\<close>, where the string form of a Number is its decimal
  digits. The identifier counter can leave that range (it starts from what the
  relationships part holds), so its string form goes through \<open>numStr\<close>;
  \<^verbatim>\<open>++lastRId\<close> is an addition of Numbers, rounded by \<open>to_double\<close>.
\<close>

definition mediaName :: "(nat \<Rightarrow> nat) \<Rightarrow> nat \<Rightarrow> string" where
  "mediaName now index = ''media/appendix_img_'' @ show_nat (now index) @ ''_'' @ show_nat index @ ''.jpg''"

definition ridName :: "numerics \<Rightarrow> nat \<Rightarrow> string" where
  "ridName nm n = ''rId'' @ numStr nm n"

fun appendLoop :: "numerics \<Rightarrow> (nat \<Rightarrow> nat) \<Rightarrow> string list \<Rightarrow> nat
    \<Rightarrow> archive \<times> string \<times> nat \<times> string \<Rightarrow> archive \<times> string \<times> nat \<times> string" where
  "appendLoop nm now [] index st = st"
| "appendLoop nm now (imgBuffer # rest) index (zipf, relsXml, lastRId, xmlAppend) =
     (let lastRId' = to_double (lastRId + 1);
          rId = ridName nm lastRId';
          imgFileName = mediaName now index
      in appendLoop nm now rest (Suc index)
           (zipf(''word/'' @ imgFileName \<mapsto> imgBuffer),
            addRelationship relsXml rId imgFileName,
            lastRId',
            xmlAppend @ generatePageBreakAndImageXml rId))"

definition spliceBody :: "archive \<Rightarrow> string \<Rightarrow> archive" where
  "spliceBody zipf xmlAppend =
     (case zipf docPath of
        None \<Rightarrow> zipf
      | Some docXml \<Rightarrow>
          (case lastIndexOf ''</w:body>'' docXml of
             None \<Rightarrow> zipf
           | Some splitIndex \<Rightarrow>
               zipf(docPath \<mapsto> take splitIndex docXml @ xmlAppend @ drop splitIndex docXml)))"

definition appendImages :: "numerics \<Rightarrow> (nat \<Rightarrow> nat) \<Rightarrow> buffer \<Rightarrow> string list \<Rightarrow> error + buffer" where
  "appendImages nm now initialDocxBlob images =
     (if images = [] then Inr initialDocxBlob
      else case initialDocxBlob of
        NotAnArchive \<Rightarrow> Inl ZipError
      | Archive zip0 \<Rightarrow>
          (let relsXml0 = (case zip0 relsPath of None \<Rightarrow> [] | Some t \<Rightarrow> t);
               lastRId0 = getLastRId nm relsXml0
           in case appendLoop nm now images 0 (zip0, relsXml0, lastRId0, []) of
                (zip1, relsXml1, lastRId1, xmlAppend) \<Rightarrow>
                  Inr (Archive (spliceBody (zip1(relsPath \<mapsto> relsXml1)) xmlAppend))))"

section \<open>Sample packages\<close>

definition sample_rels :: string where
  "sample_rels = ''<Relationships><Relationship Id='' @ [dq] @ ''rId3'' @ [dq] @ ''/></Relationships>''"

definition sample_doc :: string where
  "sample_doc = ''<w:document><w:body><w:p/></w:body></w:document>''"

definition sample_pkg :: archive where
  "sample_pkg = [relsPath \<mapsto> sample_rels, docPath \<mapsto> sample_doc]"

definition selfclosed_pkg :: archive where
  "selfclosed_pkg = [relsPath \<mapsto> ''<Relationships/>'', docPath \<mapsto> sample_doc]"

definition nodoc_pkg :: archive where
  "nodoc_pkg = [relsPath \<mapsto> sample_rels]"

section \<open>Global replace with a callback\<close>

definition replace_all :: "rx \<Rightarrow> (string \<Rightarrow> caps \<Rightarrow> string) \<Rightarrow> string \<Rightarrow> string" where
  "replace_all r f s =
     concat (map (\<lambda>p. case p of Keep c \<Rightarrow> [c] | Match m cs \<Rightarrow> f m cs) (pieces s r s))"

fun replace_stateful :: "(string \<Rightarrow> caps \<Rightarrow> 's \<Rightarrow> string \<times> 's) \<Rightarrow> piece list \<Rightarrow> 's \<Rightarrow> string \<times> 's" where
  "replace_stateful f [] st = ([], st)"
| "replace_stateful f (Keep c # ps) st =
     (case replace_stateful f ps st of (out, st') \<Rightarrow> (c # out, st'))"
| "replace_stateful f (Match m cs # ps) st =
     (case f m cs st of (r, st1) \<Rightarrow>
        (case replace_stateful f ps st1 of (out, st2) \<Rightarrow> (r @ out, st2)))"

definition trim :: "string \<Rightarrow> string" where
  "trim s = rev (dropWhile is_space (rev (dropWhile is_space s)))"

section \<open>TagNormalizer\<close>

definition MARKUP :: rx where
  "MARKUP = seqs [Atom (Is CHR ''<''), Plus (Atom (NoneOf ''>'')), Atom (Is CHR ''>'')]"

definition noise_rx :: "string \<Rightarrow> rx" where
  "noise_rx elem = seqs [lits (''<w:'' @ elem), Star (Atom (NoneOf ''>'')), lits ''/>'']"

definition noisePatterns :: "rx list" where
  "noisePatterns = map noise_rx
     [''proofErr'', ''noProof'', ''lang'', ''bookmarkStart'', ''bookmarkEnd'',
      ''commentRangeStart'', ''commentRangeEnd'', ''permStart'', ''permEnd'',
      ''moveFromRangeStart'', ''moveFromRangeEnd'', ''moveToRangeStart'', ''moveToRangeEnd'',
      ''rsid'']"

definition removeNoiseTags :: "string \<Rightarrow> string" where
  "removeNoiseTags xml = foldl (\<lambda>cleaned pattern. replace_all pattern (\<lambda>m cs. []) cleaned) xml noisePatterns"

definition split_rx :: "char \<Rightarrow> rx" where
  "split_rx b = seqs [Grp 1 (Atom (Is b)), Grp 2 (LazyStar (Atom (NoneOf ''}{''))),
                      Plus (Grp 3 MARKUP),
                      Grp 4 (LazyStar (Atom (NoneOf ''}{''))), Grp 5 (Atom (Is b))]"

definition repairSplitDelimiters :: "string \<Rightarrow> string" where
  "repairSplitDelimiters xml =
     (let xml1 = replace_all (split_rx CHR ''{'')
                   (\<lambda>m cs. if trim (cap 2 cs) = [] \<and> trim (cap 4 cs) = [] then ''{{'' else m) xml
      in replace_all (split_rx CHR ''}'')
           (\<lambda>m cs. if trim (cap 2 cs) = [] \<and> trim (cap 4 cs) = [] then ''}}'' else m) xml1)"

definition removeDuplicateDelimiters :: "string \<Rightarrow> string" where
  "removeDuplicateDelimiters xml = xml"

definition tagRegex :: rx where
  "tagRegex = seqs [lits ''{{'', Grp 1 (LazyStar (Atom AnyChar)), lits ''}}'']"

definition cleanContent :: "string \<Rightarrow> string" where
  "cleanContent content =
     replace_all (Atom (Is CHR ''}'')) (\<lambda>m cs. [])
       (replace_all (Atom (Is CHR ''{'')) (\<lambda>m cs. [])
          (replace_all MARKUP (\<lambda>m cs. []) content))"

definition consolidateTags :: "string \<Rightarrow> string" where
  "consolidateTags xml = replace_all tagRegex (\<lambda>m cs. ''{{'' @ cleanContent (cap 1 cs) @ ''}}'') xml"

definition normalize :: "string \<Rightarrow> bool \<Rightarrow> string" where
  "normalize xmlContent isDoubleMode =
     (let xml = removeNoiseTags xmlContent
      in if isDoubleMode
         then consolidateTags (removeDuplicateDelimiters (repairSplitDelimiters xml))
         else xml)"

section \<open>TagDetector\<close>

record DocxTag =
  tag_id :: string
  tag_raw :: string
  tag_name :: string

definition DOUBLE_BRACE_REGEX :: rx where
  "DOUBLE_BRACE_REGEX = seqs [lits ''{{'', Star (Atom SpaceChar), Grp 1 (Plus (Atom (NoneOf ''}''))),
                               Star (Atom SpaceChar), lits ''}}'']"

definition SINGLE_BRACE_REGEX :: rx where
  "SINGLE_BRACE_REGEX = seqs [NotBehind CHR ''{'', Atom (Is CHR ''{''), Star (Atom SpaceChar),
                               Grp 1 (Plus (Atom (NoneOf ''{}''))), Star (Atom SpaceChar),
                               Atom (Is CHR ''}''), NotAhead CHR ''}'']"

definition addTag :: "string \<Rightarrow> string \<Rightarrow> DocxTag list \<times> string set \<Rightarrow> DocxTag list \<times> string set" where
  "addTag rawText nameText st =
     (case st of (tags, seen) \<Rightarrow>
        (let cleanName = trim nameText
         in if cleanName \<noteq> [] \<and> cleanName \<notin> seen
            then (tags @ [\<lparr>tag_id = cleanName, tag_raw = rawText, tag_name = cleanName\<rparr>],
                  insert cleanName seen)
            else (tags, seen)))"

fun insert_by :: "('a \<Rightarrow> 'a \<Rightarrow> int) \<Rightarrow> 'a \<Rightarrow> 'a list \<Rightarrow> 'a list" where
  "insert_by cmp x [] = [x]"
| "insert_by cmp x (y # ys) = (if cmp x y \<le> 0 then x # y # ys else y # insert_by cmp x ys)"

definition sort_by :: "('a \<Rightarrow> 'a \<Rightarrow> int) \<Rightarrow> 'a list \<Rightarrow> 'a list" where
  "sort_by cmp xs = foldr (insert_by cmp) xs []"

definition doubleCandidates :: "string \<Rightarrow> (string \<times> string) list" where
  "doubleCandidates fullText = map (\<lambda>(m, cs). (m, cap 1 cs)) (matches_of DOUBLE_BRACE_REGEX fullText)"

definition singleCandidates :: "string \<Rightarrow> (string \<times> string) list" where
  "singleCandidates fullText =
     filter (\<lambda>(m, nameText). length nameText < 50 \<and> nl \<notin> set nameText)
       (map (\<lambda>(m, cs). (m, trim (cap 1 cs))) (matches_of SINGLE_BRACE_REGEX fullText))"

definition candidates :: "string \<Rightarrow> (string \<times> string) list" where
  "candidates fullText =
     (let ds = doubleCandidates fullText;
          hasDouble = (matches_of DOUBLE_BRACE_REGEX fullText \<noteq> [])
      in if \<not> hasDouble then ds @ singleCandidates fullText else ds)"

definition findTags :: "(string \<Rightarrow> string \<Rightarrow> int) \<Rightarrow> string \<Rightarrow> DocxTag list" where
  "findTags localeCompare fullText =
     (let tags = fst (foldl (\<lambda>st (m, nameText). addTag m nameText st) ([], {}) (candidates fullText))
      in sort_by (\<lambda>a b. localeCompare (tag_name a) (tag_name b)) tags)"

section \<open>The RegExp constructor on the pattern strings that DocxManager builds\<close>

datatype pmode = Normal | Escaped | ClassStart | InClass bool "char list"

datatype pstate = PS "(nat \<times> rx list) list" nat pmode | PSyntaxError | PUnsupported

datatype compiled = Parsed rx | SyntaxError | Unsupported

definition syntax_chars :: "char list" where
  "syntax_chars = ''^$'' @ [bksl] @ ''.*+?()[]{}|/''"

fun quantifiable :: "rx \<Rightarrow> bool" where
  "quantifiable (Atom k) = True"
| "quantifiable (Grp i r) = True"
| "quantifiable r = False"

definition quantify :: "(rx \<Rightarrow> rx) \<Rightarrow> (nat \<times> rx list) list \<Rightarrow> nat \<Rightarrow> pstate" where
  "quantify q stk n =
     (case stk of
        (i, a # items) # rest \<Rightarrow>
          if quantifiable a then PS ((i, q a # items) # rest) n Normal else PSyntaxError
      | _ \<Rightarrow> PSyntaxError)"

definition push_atom :: "rx \<Rightarrow> (nat \<times> rx list) list \<Rightarrow> nat \<Rightarrow> pstate" where
  "push_atom a stk n =
     (case stk of
        (i, items) # rest \<Rightarrow> PS ((i, a # items) # rest) n Normal
      | [] \<Rightarrow> PSyntaxError)"

fun pstep :: "pstate \<Rightarrow> char \<Rightarrow> pstate" where
  "pstep PSyntaxError c = PSyntaxError"
| "pstep PUnsupported c = PUnsupported"
| "pstep (PS stk n Normal) c =
     (if c = bksl then PS stk n Escaped
      else if c = CHR ''('' then PS ((Suc n, []) # stk) (Suc n) Normal
      else if c = CHR '')'' then
        (case stk of
           (i, items) # (j, outer) # rest \<Rightarrow>
             PS ((j, Grp i (seqs (rev items)) # outer) # rest) n Normal
         | _ \<Rightarrow> PSyntaxError)
      else if c = CHR ''*'' then quantify Star stk n
      else if c = CHR ''+'' then quantify Plus stk n
      else if c = CHR ''['' then PS stk n ClassStart
      else if c \<in> set ''?{}|^$.]'' then PUnsupported
      else push_atom (Atom (Is c)) stk n)"
| "pstep (PS stk n Escaped) c =
     (if c \<in> set syntax_chars then push_atom (Atom (Is c)) stk n else PUnsupported)"
| "pstep (PS stk n ClassStart) c =
     (if c = CHR ''^'' then PS stk n (InClass True [])
      else if c = CHR '']'' \<or> c = bksl then PUnsupported
      else PS stk n (InClass False [c]))"
| "pstep (PS stk n (InClass neg cs)) c =
     (if c = CHR '']'' then push_atom (Atom (if neg then NoneOf (rev cs) else OneOf (rev cs))) stk n
      else if c = bksl \<or> c = CHR ''-'' then PUnsupported
      else PS stk n (InClass neg (c # cs)))"

fun pfinish :: "pstate \<Rightarrow> compiled" where
  "pfinish (PS [(i, items)] n Normal) = Parsed (seqs (rev items))"
| "pfinish (PS stk n m) = SyntaxError"
| "pfinish PSyntaxError = SyntaxError"
| "pfinish PUnsupported = Unsupported"

definition newRegExp :: "string \<Rightarrow> compiled" where
  "newRegExp patternString = pfinish (foldl pstep (PS [(0, [])] 0 Normal) patternString)"

section \<open>DocxManager\<close>

datatype tmpl_result = Built | ParseErrors "string list" | UnknownFailure

record manager =
  zipA :: "archive option"
  docT :: bool
  originalContent :: "buffer option"
  loadErrors :: "string list"
  delimiterConfig :: "string \<times> string"

definition count_matches :: "rx \<Rightarrow> string \<Rightarrow> nat" where
  "count_matches r s = length (matches_of r s)"

definition detectDelimiters :: "buffer \<Rightarrow> manager \<Rightarrow> manager" where
  "detectDelimiters content st =
     (case content of
        NotAnArchive \<Rightarrow> st\<lparr>delimiterConfig := (''{{'', ''}}'')\<rparr>
      | Archive z \<Rightarrow>
          (let xml = (case z docPath of None \<Rightarrow> [] | Some t \<Rightarrow> t);
               doubleOpen = count_matches (lits ''{{'') xml;
               singleOpen = count_matches (lits ''{'') xml
           in if doubleOpen = 0 \<and> singleOpen > 0
              then st\<lparr>delimiterConfig := (''{'', ''}'')\<rparr>
              else st\<lparr>delimiterConfig := (''{{'', ''}}'')\<rparr>))"

definition healDocumentXml :: "manager \<Rightarrow> buffer \<Rightarrow> error + buffer" where
  "healDocumentXml st content =
     (case content of
        NotAnArchive \<Rightarrow> Inl ZipError
      | Archive z \<Rightarrow>
          (case z docPath of
             None \<Rightarrow> Inr content
           | Some originalXml \<Rightarrow>
               (let isDoubleMode = (fst (delimiterConfig st) = ''{{'');
                    healedXml = normalize originalXml isDoubleMode
                in Inr (Archive (z(docPath \<mapsto> healedXml))))))"

definition initializeDocxtemplater :: "(archive \<Rightarrow> string \<times> string \<Rightarrow> tmpl_result) \<Rightarrow> manager
    \<Rightarrow> error option \<times> manager" where
  "initializeDocxtemplater templater st =
     (case zipA st of
        None \<Rightarrow> (None, st)
      | Some z \<Rightarrow>
          (case templater z (delimiterConfig st) of
             Built \<Rightarrow> (None, st\<lparr>docT := True\<rparr>)
           | ParseErrors errs \<Rightarrow> (None, st\<lparr>loadErrors := errs\<rparr>)
           | UnknownFailure \<Rightarrow> (Some CriticalTemplateError, st)))"

definition load :: "(archive \<Rightarrow> string \<times> string \<Rightarrow> tmpl_result) \<Rightarrow> buffer \<Rightarrow> manager
    \<Rightarrow> error option \<times> manager" where
  "load templater content st =
     (let st1 = st\<lparr>originalContent := Some content, loadErrors := [], docT := False, zipA := None\<rparr>;
          st2 = detectDelimiters content st1
      in case healDocumentXml st2 content of
           Inl e \<Rightarrow> (Some FailedToRead, st2)
         | Inr NotAnArchive \<Rightarrow> (Some FailedToRead, st2)
         | Inr (Archive healed) \<Rightarrow> initializeDocxtemplater templater (st2\<lparr>zipA := Some healed\<rparr>))"

definition special_chars :: "char list" where
  "special_chars = ''.*+?^${}()|[]'' @ [bksl]"

definition escapeRegExp :: "string \<Rightarrow> string" where
  "escapeRegExp searchText =
     replace_all (Atom (OneOf special_chars)) (\<lambda>m cs. [bksl] @ m) searchText"

fun join :: "string \<Rightarrow> string list \<Rightarrow> string" where
  "join sep [] = []"
| "join sep [x] = x"
| "join sep (x # xs) = x @ sep @ join sep xs"

definition patternString :: "string \<Rightarrow> string" where
  "patternString searchText =
     (let escapedSearch = escapeRegExp searchText;
          chars = map (\<lambda>c. [c]) escapedSearch
      in join ''(<[^>]+>)*'' chars)"

definition occurrence_callback :: "string \<Rightarrow> nat list \<Rightarrow> string \<Rightarrow> caps \<Rightarrow> nat \<Rightarrow> string \<times> nat" where
  "occurrence_callback newTag indicesToReplace m cs matchCount =
     (let currentIndex = matchCount
      in (if currentIndex \<in> set indicesToReplace then newTag else m, Suc matchCount))"

definition replaceSpecificOccurrences :: "(archive \<Rightarrow> string \<times> string \<Rightarrow> tmpl_result)
    \<Rightarrow> string \<Rightarrow> string \<Rightarrow> nat list \<Rightarrow> manager \<Rightarrow> error option \<times> manager" where
  "replaceSpecificOccurrences templater searchText tagName indicesToReplace st =
     (case zipA st of
        None \<Rightarrow> (Some NoDocumentLoaded, st)
      | Some z \<Rightarrow>
          (case z docPath of
             None \<Rightarrow> (Some NoDocumentXml, st)
           | Some xml \<Rightarrow>
               (case newRegExp (patternString searchText) of
                  SyntaxError \<Rightarrow> (Some RegexSyntaxError, st)
                | Unsupported \<Rightarrow> (Some UnmodelledPattern, st)
                | Parsed regex \<Rightarrow>
                    (let newTag = ''{{'' @ tagName @ ''}}''
                     in case replace_stateful (occurrence_callback newTag indicesToReplace)
                               (pieces xml regex xml) 0 of
                          (xml', matchCount) \<Rightarrow>
                            if matchCount = 0 then (Some (TextNotFound searchText), st)
                            else
                              (let newZipData = Archive (z(docPath \<mapsto> xml'))
                               in load templater newZipData
                                    (st\<lparr>zipA := Some (z(docPath \<mapsto> xml')),
                                        originalContent := Some newZipData\<rparr>))))))"

definition new_manager :: manager where
  "new_manager = \<lparr>zipA = None, docT = False, originalContent = None, loadErrors = [],
                   delimiterConfig = (''{{'', ''}}'')\<rparr>"

fun tolerant_items :: "nat \<Rightarrow> string \<Rightarrow> rx list" where
  "tolerant_items k [] = []"
| "tolerant_items k [c] = [Atom (Is c)]"
| "tolerant_items k (c # cs) = Atom (Is c) # Star (Grp (Suc k) MARKUP) # tolerant_items (Suc k) cs"

definition tolerant_rx :: "string \<Rightarrow> rx" where
  "tolerant_rx searchText = seqs (tolerant_items 0 searchText)"

definition loaded_sample :: manager where
  "loaded_sample = new_manager\<lparr>zipA := Some sample_pkg, originalContent := Some (Archive sample_pkg)\<rparr>"

definition price_doc :: string where
  "price_doc = ''<w:document><w:body><w:p><w:r><w:t>Total 3.5 EUR</w:t></w:r></w:p></w:body></w:document>''"

definition price_pkg :: archive where
  "price_pkg = [relsPath \<mapsto> sample_rels, docPath \<mapsto> price_doc]"

definition loaded_price :: manager where
  "loaded_price = new_manager\<lparr>zipA := Some price_pkg, originalContent := Some (Archive price_pkg)\<rparr>"

definition codeUnitCompare :: "string \<Rightarrow> string \<Rightarrow> int" where
  "codeUnitCompare a b = (if a < b then - 1 else if a = b then 0 else 1)"

text \<open>
  A sample of a locale-sensitive comparison, as \<^verbatim>\<open>localeCompare\<close> is in browsers and
  Node (Unicode collation) on strings of ASCII letters: the strings are compared without
  regard to case first, and strings equal up to case are ordered with the lower-case letter
  first.
\<close>

definition lower_ascii :: "char \<Rightarrow> char" where
  "lower_ascii c = (if CHR ''A'' \<le> c \<and> c \<le> CHR ''Z'' then char_of (of_char c + (32::nat)) else c)"

definition collationCompare :: "string \<Rightarrow> string \<Rightarrow> int" where
  "collationCompare a b =
     (let la = map lower_ascii a; lb = map lower_ascii b
      in if la < lb then - 1 else if lb < la then 1
         else if a = b then 0 else if b < a then - 1 else 1)"

section \<open>Closed forms of the matches of TagNormalizer's patterns\<close>

fun after_gt :: "string \<Rightarrow> string option" where
  "after_gt [] = None"
| "after_gt (x # xs) = (if x = CHR ''>'' then Some xs else after_gt xs)"

fun markup_end :: "string \<Rightarrow> string option" where
  "markup_end (c # x # xs) = (if c = CHR ''<'' \<and> x \<noteq> CHR ''>'' then after_gt xs else None)"
| "markup_end s = None"

fun find_close :: "string \<Rightarrow> (string \<times> string) option" where
  "find_close [] = None"
| "find_close (x # xs) =
     (if prefix ''}}'' (x # xs) then Some ([], drop 2 (x # xs))
      else map_option (\<lambda>(c, r). (x # c, r)) (find_close xs))"


fun nomk :: "string \<Rightarrow> bool" where
  "nomk [] = True"
| "nomk (x # xs) = (markup_end (x # xs) = None \<and> nomk xs)"

definition render_del :: "piece list \<Rightarrow> string" where
  "render_del ps = concat (map (\<lambda>p. case p of Keep c \<Rightarrow> [c] | Match m cs \<Rightarrow> []) ps)"

definition tag_match :: "string \<Rightarrow> (string \<times> string) option" where
  "tag_match s = (if prefix ''{{'' s then find_close (drop 2 s) else None)"

definition reemit :: "piece \<Rightarrow> piece" where
  "reemit p = (case p of
                 Keep c \<Rightarrow> Keep c
               | Match m cs \<Rightarrow> Match (''{{'' @ cleanContent (cap 1 cs) @ ''}}'')
                                   [(1, cleanContent (cap 1 cs))])"

definition render_tags :: "piece list \<Rightarrow> string" where
  "render_tags ps = concat (map (\<lambda>p. case p of Keep c \<Rightarrow> [c]
                                   | Match m cs \<Rightarrow> ''{{'' @ cleanContent (cap 1 cs) @ ''}}'') ps)"

section \<open>Decimal numerals and part names\<close>

lemma digit_val_digit_char: "d < 10 \<Longrightarrow> digit_val (digit_char d) = d"
proof -
  assume "d < 10"
  then have "d \<in> {0,1,2,3,4,5,6,7,8,9}" by auto
  then show ?thesis
    by (auto simp: digit_val_def digit_char_def)
qed

lemma is_digit_digit_char: "d < 10 \<Longrightarrow> is_digit (digit_char d)"
proof -
  assume "d < 10"
  then have "d \<in> {0,1,2,3,4,5,6,7,8,9}" by auto
  then show ?thesis
    by (auto simp: is_digit_def digit_char_def)
qed

lemma show_nat_digits: "\<forall>c\<in>set (show_nat n). is_digit c"
proof (induction n rule: show_nat.induct)
  case (1 n)
  show ?case
  proof (cases "n < 10")
    case True
    then show ?thesis by (subst show_nat.simps) (simp add: is_digit_digit_char)
  next
    case False
    with 1 show ?thesis by (subst show_nat.simps) (simp add: is_digit_digit_char)
  qed
qed

lemma foldl_show_nat: "foldl (\<lambda>a c. 10 * a + digit_val c) 0 (show_nat n) = n"
proof (induction n rule: show_nat.induct)
  case (1 n)
  show ?case
  proof (cases "n < 10")
    case True
    then show ?thesis by (subst show_nat.simps) (simp add: digit_val_digit_char)
  next
    case False
    with 1 show ?thesis by (subst show_nat.simps) (simp add: digit_val_digit_char)
  qed
qed

lemma show_nat_inj: "show_nat a = show_nat b \<Longrightarrow> a = b"
  by (metis foldl_show_nat)

lemma sep_split:
  "c \<notin> set a \<Longrightarrow> c \<notin> set a' \<Longrightarrow> a @ c # b = a' @ c # b' \<Longrightarrow> a = a' \<and> b = b'"
proof (induction a arbitrary: a')
  case Nil
  then show ?case by (cases a') auto
next
  case (Cons x xs)
  then show ?case by (cases a') auto
qed

lemma underscore_not_digit: "is_digit c \<Longrightarrow> c \<noteq> CHR ''_''"
  by (auto simp: is_digit_def)

lemma mediaName_inj: "mediaName now i = mediaName now j \<Longrightarrow> i = j"
proof -
  assume "mediaName now i = mediaName now j"
  then have e: "show_nat (now i) @ CHR ''_'' # (show_nat i @ ''.jpg'')
          = show_nat (now j) @ CHR ''_'' # (show_nat j @ ''.jpg'')"
    by (simp add: mediaName_def)
  have "CHR ''_'' \<notin> set (show_nat (now i))" "CHR ''_'' \<notin> set (show_nat (now j))"
    using show_nat_digits underscore_not_digit by blast+
  from sep_split[OF this e] have "show_nat i = show_nat j" by simp
  then show ?thesis by (rule show_nat_inj)
qed

section \<open>DocxAppender.appendImages\<close>

text \<open>
  C10. \<^verbatim>\<open>if (images.length === 0) return initialDocxBlob;\<close>: with an empty image list
  the call returns the blob it was given, whatever that blob holds (the archive is never
  opened, so even a buffer that is not an archive comes back, and no part is touched).
\<close>

theorem appendImages_empty_identity:
  "appendImages nm now initialDocxBlob [] = Inr initialDocxBlob"
  by (simp add: appendImages_def)

subsection \<open>Literal search\<close>

lemma indexOf_no_first_char:
  "c \<notin> set t \<Longrightarrow> indexOf (c # nrest) (t @ (c # nrest) @ post) = Some (length t)"
  by (induction t) auto

lemma prefix_append_longer:
  "prefix needle (pre @ rest) \<Longrightarrow> \<not> prefix needle (pre @ other) \<Longrightarrow>
   \<exists>us. needle = pre @ us \<and> us \<noteq> [] \<and> prefix us rest"
  by (auto simp: prefix_append)

lemma indexOf_Cons_Some:
  "indexOf n (x # xs) = Some (Suc k) \<Longrightarrow> \<not> prefix n (x # xs) \<and> indexOf n xs = Some k"
  by (cases "prefix n (x # xs)") auto

lemma indexOf_Cons_skip:
  "\<not> prefix n (x # xs) \<Longrightarrow> indexOf n (x # xs) = map_option Suc (indexOf n xs)"
  by simp

lemma indexOf_insert_before:
  assumes c: "c \<notin> set nrest" "c \<notin> set trest"
      and np: "\<not> prefix (c # nrest) (c # trest @ c # nrest @ post)"
  shows "indexOf (c # nrest) (pre @ (c # nrest) @ post) = Some (length pre) \<Longrightarrow>
         indexOf (c # nrest) (pre @ (c # trest) @ (c # nrest) @ post)
           = Some (length pre + length (c # trest))"
proof (induction pre)
  case Nil
  define n where "n = c # nrest"
  have "indexOf n (trest @ n @ post) = Some (length trest)"
    unfolding n_def using c(2) by (rule indexOf_no_first_char)
  moreover have "\<not> prefix n (c # trest @ n @ post)"
    using np by (simp add: n_def)
  ultimately have "indexOf n (c # trest @ n @ post) = Some (Suc (length trest))"
    by (simp add: indexOf_Cons_skip del: indexOf.simps)
  then show ?case by (simp only: n_def append_Nil append_Cons list.size) simp
next
  case (Cons x pre)
  define n where "n = c # nrest"
  define T where "T = c # trest"
  from Cons.prems have "indexOf n (x # (pre @ n @ post)) = Some (Suc (length pre))"
    by (simp only: n_def append_Cons list.size) simp
  then have no: "\<not> prefix n (x # (pre @ n @ post))"
    and pre: "indexOf n (pre @ n @ post) = Some (length pre)"
    using indexOf_Cons_Some by blast+
  from pre have ih: "indexOf n (pre @ T @ n @ post) = Some (length pre + length T)"
    unfolding n_def T_def by (rule Cons.IH)
  have "\<not> prefix n (x # (pre @ T @ n @ post))"
  proof
    assume p: "prefix n (x # (pre @ T @ n @ post))"
    then have p1: "prefix n ((x # pre) @ (T @ n @ post))" by simp
    from no have p2: "\<not> prefix n ((x # pre) @ (n @ post))" by simp
    from prefix_append_longer[OF p1 p2] obtain us where us: "n = (x # pre) @ us" "us \<noteq> []"
        "prefix us (T @ n @ post)"
      by (elim exE conjE)
    from us(2,3) have "hd us = c" by (cases us) (auto simp: T_def)
    with us(2) have "c \<in> set us" by (cases us) auto
    moreover from us(1) have "set us \<subseteq> set nrest"
      unfolding n_def by (cases us) (auto simp: Cons_eq_append_conv)
    ultimately show False using c(1) by auto
  qed
  then have "indexOf n (x # (pre @ T @ n @ post)) = Some (Suc (length pre + length T))"
    using ih by (simp add: indexOf_Cons_skip del: indexOf.simps)
  then show ?case by (simp only: n_def T_def append_Cons list.size) simp
qed

lemma indexOf_Some_take_drop:
  "indexOf needle s = Some i \<Longrightarrow> s = take i s @ needle @ drop (i + length needle) s"
proof (induction s arbitrary: i)
  case Nil
  then show ?case by (auto split: if_splits)
next
  case (Cons x xs)
  show ?case
  proof (cases "prefix needle (x # xs)")
    case True
    with Cons.prems have "i = 0" by simp
    with True show ?thesis by (auto simp: prefix_def)
  next
    case False
    with Cons.prems obtain j where j: "indexOf needle xs = Some j" "i = Suc j" by auto
    from Cons.IH[OF j(1)] j(2) show ?thesis by simp
  qed
qed

lemma indexOf_le_length: "indexOf needle s = Some i \<Longrightarrow> i + length needle \<le> length s"
proof (induction s arbitrary: i)
  case Nil
  then show ?case by (auto split: if_splits)
next
  case (Cons x xs)
  show ?case
  proof (cases "prefix needle (x # xs)")
    case True
    with Cons.prems have "i = 0" by simp
    with True show ?thesis by (auto dest: prefix_length_le)
  next
    case False
    with Cons.prems obtain j where j: "indexOf needle xs = Some j" "i = Suc j" by auto
    from Cons.IH[OF j(1)] j(2) show ?thesis by simp
  qed
qed

lemma lastIndexOf_prefix:
  "lastIndexOf needle s = Some i \<Longrightarrow> i \<le> length s \<and> prefix needle (drop i s)"
proof (induction s arbitrary: i)
  case Nil
  then show ?case by (auto split: if_splits)
next
  case (Cons x xs)
  then show ?case by (auto split: option.splits if_splits)
qed

lemma lastIndexOf_None:
  "lastIndexOf needle s = None \<Longrightarrow> k \<le> length s \<Longrightarrow> \<not> prefix needle (drop k s)"
proof (induction s arbitrary: k)
  case Nil
  then show ?case by (auto split: if_splits)
next
  case (Cons y ys)
  then show ?case by (cases k) (auto split: option.splits if_splits)
qed

lemma lastIndexOf_last:
  "lastIndexOf needle s = Some i \<Longrightarrow> i < j \<Longrightarrow> j \<le> length s \<Longrightarrow> \<not> prefix needle (drop j s)"
proof (induction s arbitrary: i j)
  case Nil
  then show ?case by simp
next
  case (Cons x xs)
  from Cons.prems(2) obtain j' where j': "j = Suc j'" by (cases j) auto
  with Cons.prems(3) have le: "j' \<le> length xs" by simp
  show ?case
  proof (cases "lastIndexOf needle xs")
    case None
    then have "\<not> prefix needle (drop j' xs)" using le by (rule lastIndexOf_None)
    with j' show ?thesis by simp
  next
    case (Some k)
    with Cons.prems(1) have "i = Suc k" by simp
    with Cons.prems(2) j' have "k < j'" by simp
    from Cons.IH[OF Some this le] j' show ?thesis by simp
  qed
qed

subsection \<open>The per-image loop of appendImages\<close>

lemma appendLoop_other_parts:
  "appendLoop nm now imgs idx (z, rels, lastId, app) = (z', rels', lastId', app') \<Longrightarrow>
   (\<And>k. k < length imgs \<Longrightarrow> p \<noteq> ''word/'' @ mediaName now (idx + k)) \<Longrightarrow>
   z' p = z p"
proof (induction imgs arbitrary: idx z rels lastId app)
  case Nil
  then show ?case by simp
next
  case (Cons a imgs)
  from Cons.prems(1) have step:
    "appendLoop nm now imgs (Suc idx)
       (z(''word/'' @ mediaName now idx \<mapsto> a),
        addRelationship rels (ridName nm (to_double (lastId + 1))) (mediaName now idx),
        to_double (lastId + 1),
        app @ generatePageBreakAndImageXml (ridName nm (to_double (lastId + 1))))
     = (z', rels', lastId', app')"
    by (simp add: Let_def)
  have "\<And>k. k < length imgs \<Longrightarrow> p \<noteq> ''word/'' @ mediaName now (Suc idx + k)"
    using Cons.prems(2)[of "Suc k" for k] by simp
  from Cons.IH[OF step this] have "z' p = (z(''word/'' @ mediaName now idx \<mapsto> a)) p" .
  moreover have "p \<noteq> ''word/'' @ mediaName now idx"
    using Cons.prems(2)[of 0] by simp
  ultimately show ?case by simp
qed

lemma appendLoop_media_parts:
  "appendLoop nm now imgs idx (z, rels, lastId, app) = (z', rels', lastId', app') \<Longrightarrow>
   k < length imgs \<Longrightarrow> z' (''word/'' @ mediaName now (idx + k)) = Some (imgs ! k)"
proof (induction imgs arbitrary: idx z rels lastId app k)
  case Nil
  then show ?case by simp
next
  case (Cons a imgs)
  from Cons.prems(1) have step:
    "appendLoop nm now imgs (Suc idx)
       (z(''word/'' @ mediaName now idx \<mapsto> a),
        addRelationship rels (ridName nm (to_double (lastId + 1))) (mediaName now idx),
        to_double (lastId + 1),
        app @ generatePageBreakAndImageXml (ridName nm (to_double (lastId + 1))))
     = (z', rels', lastId', app')"
    by (simp add: Let_def)
  show ?case
  proof (cases k)
    case 0
    have "\<And>j. j < length imgs \<Longrightarrow>
            ''word/'' @ mediaName now idx \<noteq> ''word/'' @ mediaName now (Suc idx + j)"
      using mediaName_inj[of now idx] by fastforce
    from appendLoop_other_parts[OF step this] 0 show ?thesis by simp
  next
    case (Suc j)
    with Cons.prems(2) have "j < length imgs" by simp
    from Cons.IH[OF step this] Suc show ?thesis by simp
  qed
qed

lemma appendImages_nonempty:
  assumes "images \<noteq> []"
      and "appendLoop nm now images 0 (z, rels0, getLastRId nm rels0, []) = (z1, rels1, l1, app)"
      and "rels0 = (case z relsPath of None \<Rightarrow> [] | Some t \<Rightarrow> t)"
  shows "appendImages nm now (Archive z) images
           = Inr (Archive (spliceBody (z1(relsPath \<mapsto> rels1)) app))"
  using assms by (simp add: appendImages_def Let_def)

lemma media_not_doc: "''word/'' @ mediaName now k \<noteq> docPath"
  by (simp add: mediaName_def)

lemma media_not_rels: "''word/'' @ mediaName now k \<noteq> relsPath"
  by (simp add: mediaName_def)

lemma spliceBody_other: "p \<noteq> docPath \<Longrightarrow> spliceBody zipf app p = zipf p"
  by (simp add: spliceBody_def split: option.splits)

text \<open>
  C3 (amended). For a non-empty image list, when the main text part is absent or holds no
  \<^verbatim>\<open></w:body>\<close>, appendImages does not fail and leaves the main text part as it was
  (an absent part stays absent), as well as every part other than the relationships part
  and the new media parts. It is not a passthrough: the media parts were stored and the
  relationships part was written before the guards \<^verbatim>\<open>if (docFile)\<close> and
  \<^verbatim>\<open>if (splitIndex !== -1)\<close> are reached, and those guard the splice only.
\<close>

theorem appendImages_no_anchor:
  assumes ne: "images \<noteq> []"
      and na: "z docPath = None \<or> (\<exists>doc. z docPath = Some doc \<and> lastIndexOf ''</w:body>'' doc = None)"
  shows "\<exists>z'. appendImages nm now (Archive z) images = Inr (Archive z')
      \<and> z' docPath = z docPath
      \<and> (\<forall>k<length images. z' (''word/'' @ mediaName now k) = Some (images ! k))
      \<and> z' relsPath \<noteq> None
      \<and> (\<forall>p. p \<noteq> relsPath \<and> (\<forall>k<length images. p \<noteq> ''word/'' @ mediaName now k) \<longrightarrow> z' p = z p)"
proof -
  define rels0 where "rels0 = (case z relsPath of None \<Rightarrow> [] | Some t \<Rightarrow> t)"
  obtain z1 rels1 l1 app where loop:
    "appendLoop nm now images 0 (z, rels0, getLastRId nm rels0, []) = (z1, rels1, l1, app)"
    by (metis prod_cases4)
  define z2 where "z2 = z1(relsPath \<mapsto> rels1)"
  have z1doc: "z1 docPath = z docPath"
    using loop by (rule appendLoop_other_parts) (simp add: mediaName_def)
  then have z2doc: "z2 docPath = z docPath" unfolding z2_def by simp
  have sp: "spliceBody z2 app = z2"
    using na z2doc by (auto simp: spliceBody_def)
  have res: "appendImages nm now (Archive z) images = Inr (Archive z2)"
    using appendImages_nonempty[OF ne loop rels0_def] sp unfolding z2_def by simp
  have zm: "\<forall>k<length images. z2 (''word/'' @ mediaName now k) = Some (images ! k)"
  proof (intro allI impI)
    fix k assume k: "k < length images"
    from appendLoop_media_parts[OF loop k]
    have "z1 (''word/'' @ mediaName now k) = Some (images ! k)" by simp
    then show "z2 (''word/'' @ mediaName now k) = Some (images ! k)"
      unfolding z2_def using media_not_rels[of now k] by simp
  qed
  have other: "\<forall>p. p \<noteq> relsPath \<and> (\<forall>k<length images. p \<noteq> ''word/'' @ mediaName now k) \<longrightarrow> z2 p = z p"
  proof (intro allI impI)
    fix p assume p: "p \<noteq> relsPath \<and> (\<forall>k<length images. p \<noteq> ''word/'' @ mediaName now k)"
    then have "z1 p = z p"
      using appendLoop_other_parts[OF loop, of p] by simp
    with p show "z2 p = z p" unfolding z2_def by simp
  qed
  have "z2 relsPath \<noteq> None" unfolding z2_def by simp
  with res z2doc zm other show ?thesis by blast
qed

lemma parseInt_3: "parseInt nm ''3'' = 3"
  by (simp add: parseInt_def is_digit_def digit_val_def to_double_def)

lemma sample_getLastRId: "getLastRId nm sample_rels = 3"
proof -
  have m: "matches_of RID_REGEX sample_rels
      = [(''Id='' @ [dq] @ ''rId3'' @ [dq], [(1, ''3'')])]"
    by code_simp
  have r: "matches_of RID_REGEX (''Id='' @ [dq] @ ''rId3'' @ [dq])
      = [(''Id='' @ [dq] @ ''rId3'' @ [dq], [(1, ''3'')])]"
    by code_simp
  have "ridOf nm (''Id='' @ [dq] @ ''rId3'' @ [dq]) = 3"
    unfolding ridOf_def r by (simp add: cap_def parseInt_3 del: append.simps)
  then show ?thesis
    unfolding getLastRId_def m by (simp del: append.simps)
qed

lemma show_nat_small:
  "show_nat 0 = ''0''" "show_nat 1 = ''1''" "show_nat (Suc 0) = ''1''" "show_nat 4 = ''4''"
  "show_nat 5 = ''5''" "show_nat 42 = ''42''"
  by code_simp+

lemma ridName_small: "ridName nm 1 = ''rId1''" "ridName nm (Suc 0) = ''rId1''" "ridName nm 4 = ''rId4''"
  by (simp_all add: ridName_def numStr_def show_nat_small)

lemma to_double_small: "to_double 1 = 1" "to_double (Suc 0) = 1" "to_double 4 = 4"
  by (simp_all add: to_double_def)

theorem appendImages_no_anchor_witness:
  "\<forall>nm. [''JPEG1''] \<noteq> []
   \<and> nodoc_pkg docPath = None
   \<and> (\<exists>z'. appendImages nm (\<lambda>_. 42) (Archive nodoc_pkg) [''JPEG1''] = Inr (Archive z')
        \<and> z' docPath = None
        \<and> z' ''word/media/appendix_img_42_0.jpg'' = Some ''JPEG1''
        \<and> z' relsPath \<noteq> None
        \<and> z' ''[Content_Types].xml'' = nodoc_pkg ''[Content_Types].xml'')"
proof
  fix nm :: numerics
  have h1: "[''JPEG1''] \<noteq> []" by simp
  have nd: "nodoc_pkg docPath = None" by (simp add: nodoc_pkg_def)
  then have h2: "nodoc_pkg docPath = None
      \<or> (\<exists>doc. nodoc_pkg docPath = Some doc \<and> lastIndexOf ''</w:body>'' doc = None)" by simp
  from appendImages_no_anchor[where images = "[''JPEG1'']" and z = nodoc_pkg and now = "\<lambda>_. 42"
      and nm = nm, OF h1 h2]
  obtain z' where z:
    "appendImages nm (\<lambda>_. 42) (Archive nodoc_pkg) [''JPEG1''] = Inr (Archive z')"
    "z' docPath = nodoc_pkg docPath"
    "\<forall>k<length [''JPEG1'']. z' (''word/'' @ mediaName (\<lambda>_. 42) k) = Some ([''JPEG1''] ! k)"
    "z' relsPath \<noteq> None"
    "\<forall>p. p \<noteq> relsPath \<and> (\<forall>k<length [''JPEG1'']. p \<noteq> ''word/'' @ mediaName (\<lambda>_. 42) k) \<longrightarrow> z' p = nodoc_pkg p"
    by blast
  have m0: "''word/'' @ mediaName (\<lambda>_. 42) 0 = ''word/media/appendix_img_42_0.jpg''"
    by (simp add: mediaName_def show_nat_small)
  from z(3) have "z' (''word/'' @ mediaName (\<lambda>_. 42) 0) = Some ''JPEG1''" by simp
  then have zm: "z' ''word/media/appendix_img_42_0.jpg'' = Some ''JPEG1''" unfolding m0 .
  have "''[Content_Types].xml'' \<noteq> relsPath
      \<and> (\<forall>k<length [''JPEG1'']. ''[Content_Types].xml'' \<noteq> ''word/'' @ mediaName (\<lambda>_. 42) k)"
    by simp
  from z(5)[THEN spec, THEN mp, OF this]
  have zo: "z' ''[Content_Types].xml'' = nodoc_pkg ''[Content_Types].xml''" .
  from h1 nd z(1) z(2) zm z(4) zo
  show "[''JPEG1''] \<noteq> []
   \<and> nodoc_pkg docPath = None
   \<and> (\<exists>z'. appendImages nm (\<lambda>_. 42) (Archive nodoc_pkg) [''JPEG1''] = Inr (Archive z')
        \<and> z' docPath = None
        \<and> z' ''word/media/appendix_img_42_0.jpg'' = Some ''JPEG1''
        \<and> z' relsPath \<noteq> None
        \<and> z' ''[Content_Types].xml'' = nodoc_pkg ''[Content_Types].xml'')" by simp
qed

text \<open>
  C3 as stated fails: without a main text part, one image still changes the package (a
  media part is added and the relationships part gains the entry rId4).
\<close>

theorem appendImages_nodoc_counterexample:
  "\<forall>nm. nodoc_pkg docPath = None
   \<and> appendImages nm (\<lambda>_. 42) (Archive nodoc_pkg) [''JPEG1'']
       = Inr (Archive (nodoc_pkg(''word/media/appendix_img_42_0.jpg'' \<mapsto> ''JPEG1'',
            relsPath \<mapsto> ''<Relationships><Relationship Id='' @ [dq] @ ''rId3'' @ [dq] @ ''/>''
               @ relTag ''rId4'' ''media/appendix_img_42_0.jpg'' @ ''</Relationships>'')))
   \<and> appendImages nm (\<lambda>_. 42) (Archive nodoc_pkg) [''JPEG1''] \<noteq> Inr (Archive nodoc_pkg)"
proof
  fix nm :: numerics
  have i: "indexOf ''</Relationships>'' sample_rels = Some 40" by code_simp
  have t1: "take 40 sample_rels = ''<Relationships><Relationship Id='' @ [dq] @ ''rId3'' @ [dq] @ ''/>''"
    by code_simp
  have t2: "drop 56 sample_rels = []" by code_simp
  have nd: "nodoc_pkg docPath = None" by (simp add: nodoc_pkg_def)
  have r: "appendImages nm (\<lambda>_. 42) (Archive nodoc_pkg) [''JPEG1'']
       = Inr (Archive (nodoc_pkg(''word/media/appendix_img_42_0.jpg'' \<mapsto> ''JPEG1'',
            relsPath \<mapsto> ''<Relationships><Relationship Id='' @ [dq] @ ''rId3'' @ [dq] @ ''/>''
               @ relTag ''rId4'' ''media/appendix_img_42_0.jpg'' @ ''</Relationships>'')))"
    using nd
    by (simp add: appendImages_def Let_def mediaName_def show_nat_small ridName_small
        to_double_small sample_getLastRId addRelationship_def replace_first_def i t1 t2
        spliceBody_def nodoc_pkg_def del: length_0_conv)
  have n0: "nodoc_pkg ''word/media/appendix_img_42_0.jpg'' = None" by (simp add: nodoc_pkg_def)
  have "appendImages nm (\<lambda>_. 42) (Archive nodoc_pkg) [''JPEG1''] \<noteq> Inr (Archive nodoc_pkg)"
  proof
    assume "appendImages nm (\<lambda>_. 42) (Archive nodoc_pkg) [''JPEG1''] = Inr (Archive nodoc_pkg)"
    with r have "(nodoc_pkg(''word/media/appendix_img_42_0.jpg'' \<mapsto> ''JPEG1'',
            relsPath \<mapsto> ''<Relationships><Relationship Id='' @ [dq] @ ''rId3'' @ [dq] @ ''/>''
               @ relTag ''rId4'' ''media/appendix_img_42_0.jpg'' @ ''</Relationships>''))
             ''word/media/appendix_img_42_0.jpg''
          = nodoc_pkg ''word/media/appendix_img_42_0.jpg''"
      by simp
    with n0 show False by simp
  qed
  with r nd show "nodoc_pkg docPath = None
   \<and> appendImages nm (\<lambda>_. 42) (Archive nodoc_pkg) [''JPEG1'']
       = Inr (Archive (nodoc_pkg(''word/media/appendix_img_42_0.jpg'' \<mapsto> ''JPEG1'',
            relsPath \<mapsto> ''<Relationships><Relationship Id='' @ [dq] @ ''rId3'' @ [dq] @ ''/>''
               @ relTag ''rId4'' ''media/appendix_img_42_0.jpg'' @ ''</Relationships>'')))
   \<and> appendImages nm (\<lambda>_. 42) (Archive nodoc_pkg) [''JPEG1''] \<noteq> Inr (Archive nodoc_pkg)"
    by simp
qed

lemma to_double_stalls:
  "to_double (9007199254740992 + 1) = 9007199254740992"
  "to_double 9007199254740993 = 9007199254740992"
  "to_double 9007199254740995 = 9007199254740996"
  by (simp_all add: to_double_def dexp.simps Let_def)

lemma show_nat_2_53: "show_nat 9007199254740992 = ''9007199254740992''"
  by (simp add: show_nat.simps digit_char_def)

lemma parseInt_rounds:
  "parseInt nm ''9007199254740992'' = 9007199254740992"
  "parseInt nm ''9007199254740993'' = 9007199254740992"
  by (simp_all add: parseInt_def is_digit_def digit_val_def to_double_def dexp.simps Let_def)

text \<open>
  From \<open>2 ^ 53\<close> on the counter no longer advances: \<^verbatim>\<open>++lastRId\<close> gives the same Number
  again, and two images receive the same identifier.
\<close>

lemma appendLoop_counter_stalls:
  "snd (snd (appendLoop nm now [a, b] 0 (z, rels, 9007199254740992, [])))
     = (9007199254740992,
        generatePageBreakAndImageXml ''rId9007199254740992''
          @ generatePageBreakAndImageXml ''rId9007199254740992'')"
  by (simp add: Let_def to_double_stalls ridName_def numStr_def show_nat_2_53)

text \<open>
  C4 fails on the code for a package whose relationships part has no literal
  \<^verbatim>\<open></Relationships>\<close>, for instance the self-closing empty root \<^verbatim>\<open><Relationships/>\<close>
  (or no relationships part at all): \<^verbatim>\<open>xml.replace("</Relationships>", ...)\<close> in
  addRelationship then replaces nothing, without any check. For one image the main text part
  gains the page fragment (a page break, then a drawing whose \<^verbatim>\<open>a:blip\<close> refers to
  \<^verbatim>\<open>rId1\<close>), the media part is stored, and the relationships part is written back as it
  was: no relationship entry is added and the reference \<^verbatim>\<open>r:embed="rId1"\<close> dangles.
\<close>

theorem appendImages_selfclosed_root_dangling:
  "\<forall>nm. \<exists>z'. appendImages nm (\<lambda>_. 42) (Archive selfclosed_pkg) [''JPEG1''] = Inr (Archive z')
      \<and> z' relsPath = Some ''<Relationships/>''
      \<and> z' docPath = Some (''<w:document><w:body><w:p/>''
            @ generatePageBreakAndImageXml ''rId1'' @ ''</w:body></w:document>'')
      \<and> take 21 (drop 31 (generatePageBreakAndImageXml ''rId1''))
            = ''<w:br w:type='' @ [dq] @ ''page'' @ [dq] @ ''/>''
      \<and> take 24 (drop 1016 (generatePageBreakAndImageXml ''rId1''))
            = ''<a:blip r:embed='' @ [dq] @ ''rId1'' @ [dq] @ ''/>''
      \<and> z' ''word/media/appendix_img_42_0.jpg'' = Some ''JPEG1''"
proof
  fix nm :: numerics
  have "matches_of RID_REGEX ''<Relationships/>'' = []" by code_simp
  then have g: "getLastRId nm ''<Relationships/>'' = 0" by (simp add: getLastRId_def)
  have i: "indexOf ''</Relationships>'' ''<Relationships/>'' = None" by code_simp
  have l: "lastIndexOf ''</w:body>'' sample_doc = Some 26" by code_simp
  have t3: "take 26 sample_doc = ''<w:document><w:body><w:p/>''" by code_simp
  have t4: "drop 26 sample_doc = ''</w:body></w:document>''" by code_simp
  have f1: "take 21 (drop 31 (generatePageBreakAndImageXml ''rId1''))
            = ''<w:br w:type='' @ [dq] @ ''page'' @ [dq] @ ''/>''"
    by (simp add: generatePageBreakAndImageXml_def)
  have f2: "take 24 (drop 1016 (generatePageBreakAndImageXml ''rId1''))
            = ''<a:blip r:embed='' @ [dq] @ ''rId1'' @ [dq] @ ''/>''"
    by (simp add: generatePageBreakAndImageXml_def)
  have "\<exists>z'. appendImages nm (\<lambda>_. 42) (Archive selfclosed_pkg) [''JPEG1''] = Inr (Archive z')
      \<and> z' relsPath = Some ''<Relationships/>''
      \<and> z' docPath = Some (''<w:document><w:body><w:p/>''
            @ generatePageBreakAndImageXml ''rId1'' @ ''</w:body></w:document>'')
      \<and> z' ''word/media/appendix_img_42_0.jpg'' = Some ''JPEG1''"
    by (simp add: appendImages_def selfclosed_pkg_def Let_def mediaName_def show_nat_small
        ridName_small to_double_small g i l t3 t4 addRelationship_def replace_first_def
        spliceBody_def)
  then obtain z' where z: "appendImages nm (\<lambda>_. 42) (Archive selfclosed_pkg) [''JPEG1''] = Inr (Archive z')"
      "z' relsPath = Some ''<Relationships/>''"
      "z' docPath = Some (''<w:document><w:body><w:p/>''
            @ generatePageBreakAndImageXml ''rId1'' @ ''</w:body></w:document>'')"
      "z' ''word/media/appendix_img_42_0.jpg'' = Some ''JPEG1''"
    by (elim exE conjE)
  show "\<exists>z'. appendImages nm (\<lambda>_. 42) (Archive selfclosed_pkg) [''JPEG1''] = Inr (Archive z')
      \<and> z' relsPath = Some ''<Relationships/>''
      \<and> z' docPath = Some (''<w:document><w:body><w:p/>''
            @ generatePageBreakAndImageXml ''rId1'' @ ''</w:body></w:document>'')
      \<and> take 21 (drop 31 (generatePageBreakAndImageXml ''rId1''))
            = ''<w:br w:type='' @ [dq] @ ''page'' @ [dq] @ ''/>''
      \<and> take 24 (drop 1016 (generatePageBreakAndImageXml ''rId1''))
            = ''<a:blip r:embed='' @ [dq] @ ''rId1'' @ [dq] @ ''/>''
      \<and> z' ''word/media/appendix_img_42_0.jpg'' = Some ''JPEG1''"
    using z f1 f2 by (intro exI[of _ z'] conjI)
qed

section \<open>The global match loop\<close>

lemma pieces_Nil_nomatch: "match_at inp r [] = None \<Longrightarrow> pieces inp r [] = []"
  by (subst pieces.simps) simp

lemma pieces_Cons_nomatch:
  "match_at inp r (x # xs) = None \<Longrightarrow> pieces inp r (x # xs) = Keep x # pieces inp r xs"
  by (subst pieces.simps) simp

lemma pieces_match:
  "match_at inp r s = Some (s', cs) \<Longrightarrow> length s' < length s \<Longrightarrow>
   pieces inp r s = Match (take (length s - length s') s) cs # pieces inp r s'"
  by (subst pieces.simps) simp

lemma hits_simps [simp]:
  "hits [] = []" "hits (Keep c # ps) = hits ps" "hits (Match m cs # ps) = (m, cs) # hits ps"
  by (simp_all add: hits_def)

lemma matches_of_hits: "matches_of r s = hits (pieces s r s)"
  by (simp add: matches_of_def)

section \<open>DocxManager.detectDelimiters\<close>

lemma match_at_single_open:
  "match_at inp (lits ''{'') s = (case s of [] \<Rightarrow> None | x # xs \<Rightarrow> if x = CHR ''{'' then Some (xs, []) else None)"
  by (cases s) (simp_all add: match_at_def)

lemma match_at_double_open:
  "match_at inp (lits ''{{'') s = (if prefix ''{{'' s then Some (drop 2 s, []) else None)"
proof (cases s)
  case Nil
  then show ?thesis by (simp add: match_at_def)
next
  case (Cons x xs)
  then show ?thesis by (cases xs) (auto simp: match_at_def)
qed

lemma single_open_count:
  "length (hits (pieces inp (lits ''{'') s)) = length (filter (\<lambda>c. c = CHR ''{'') s)"
proof (induction s)
  case Nil
  have "match_at inp (lits ''{'') [] = None" unfolding match_at_single_open by simp
  from pieces_Nil_nomatch[OF this] show ?case by simp
next
  case (Cons x xs)
  show ?case
  proof (cases "x = CHR ''{''")
    case True
    then have "match_at inp (lits ''{'') (x # xs) = Some (xs, [])"
      unfolding match_at_single_open by simp
    from pieces_match[OF this] Cons True show ?thesis by simp
  next
    case False
    then have "match_at inp (lits ''{'') (x # xs) = None"
      unfolding match_at_single_open by simp
    from pieces_Cons_nomatch[OF this] Cons False show ?thesis by simp
  qed
qed

lemma double_open_none:
  "(hits (pieces inp (lits ''{{'') s) = []) = (\<forall>i. \<not> prefix ''{{'' (drop i s))"
proof (induction s)
  case Nil
  have "match_at inp (lits ''{{'') [] = None" unfolding match_at_double_open by simp
  from pieces_Nil_nomatch[OF this] show ?case by simp
next
  case (Cons x xs)
  show ?case
  proof (cases "prefix ''{{'' (x # xs)")
    case True
    then have "match_at inp (lits ''{{'') (x # xs) = Some (drop 2 (x # xs), [])"
      by (simp only: match_at_double_open if_True)
    moreover from True have "length (drop 2 (x # xs)) < length (x # xs)" by simp
    ultimately have "pieces inp (lits ''{{'') (x # xs)
        = Match (take (length (x # xs) - length (drop 2 (x # xs))) (x # xs)) []
            # pieces inp (lits ''{{'') (drop 2 (x # xs))"
      by (rule pieces_match)
    then have "hits (pieces inp (lits ''{{'') (x # xs)) \<noteq> []"
      by (simp only: hits_simps) simp
    moreover from True have "\<not> (\<forall>i. \<not> prefix ''{{'' (drop i (x # xs)))"
      by (metis drop0)
    ultimately show ?thesis by simp
  next
    case False
    then have "match_at inp (lits ''{{'') (x # xs) = None"
      by (simp only: match_at_double_open if_False)
    from pieces_Cons_nomatch[OF this]
    have "(hits (pieces inp (lits ''{{'') (x # xs)) = []) = (\<forall>i. \<not> prefix ''{{'' (drop i xs))"
      using Cons by simp
    also have "\<dots> = (\<forall>i. \<not> prefix ''{{'' (drop i (x # xs)))"
    proof
      assume a: "\<forall>i. \<not> prefix ''{{'' (drop i xs)"
      show "\<forall>i. \<not> prefix ''{{'' (drop i (x # xs))"
      proof
        fix i show "\<not> prefix ''{{'' (drop i (x # xs))"
          using a False by (cases i) auto
      qed
    next
      assume a: "\<forall>i. \<not> prefix ''{{'' (drop i (x # xs))"
      show "\<forall>i. \<not> prefix ''{{'' (drop i xs)"
      proof
        fix i from a have "\<not> prefix ''{{'' (drop (Suc i) (x # xs))" by blast
        then show "\<not> prefix ''{{'' (drop i xs)" by simp
      qed
    qed
    finally show ?thesis .
  qed
qed

text \<open>
  C6. detectDelimiters only sets the delimiter configuration. It selects the single-marker
  pair exactly when the buffer is an archive whose main text part is present, holds no
  \<^verbatim>\<open>{{\<close> at any offset and holds at least one \<^verbatim>\<open>{\<close>. In every other case (also
  when the buffer is not an archive, or the main text part is absent) it selects the
  double-marker pair. It returns a state and no error, so it cannot make a load fail. The
  two counts of the source are the number of non-overlapping matches of \<^verbatim>\<open>/{{/g\<close> (zero
  exactly when \<^verbatim>\<open>{{\<close> occurs nowhere) and the number of \<^verbatim>\<open>{\<close> characters.
\<close>

theorem detectDelimiters_convention:
  "detectDelimiters content st = st\<lparr>delimiterConfig :=
      (case content of
         NotAnArchive \<Rightarrow> (''{{'', ''}}'')
       | Archive z \<Rightarrow>
           (case z docPath of
              None \<Rightarrow> (''{{'', ''}}'')
            | Some xml \<Rightarrow>
                if (\<forall>i. \<not> prefix ''{{'' (drop i xml)) \<and> CHR ''{'' \<in> set xml
                then (''{'', ''}'') else (''{{'', ''}}'')))\<rparr>
   \<and> (count_matches (lits ''{{'') xml' = 0) = (\<forall>i. \<not> prefix ''{{'' (drop i xml'))
   \<and> count_matches (lits ''{'') xml' = length (filter (\<lambda>c. c = CHR ''{'') xml')"
proof -
  have c2: "\<And>s. (count_matches (lits ''{{'') s = 0) = (\<forall>i. \<not> prefix ''{{'' (drop i s))"
    unfolding count_matches_def matches_of_hits length_0_conv by (rule double_open_none)
  have c1: "\<And>s. count_matches (lits ''{'') s = length (filter (\<lambda>c. c = CHR ''{'') s)"
    unfolding count_matches_def matches_of_hits by (rule single_open_count)
  have pos: "\<And>s. (0 < length (filter (\<lambda>c. c = CHR ''{'') s)) = (CHR ''{'' \<in> set s)"
    by (simp add: filter_empty_conv)
  have e0: "count_matches (lits ''{{'') [] = 0" "count_matches (lits ''{'') [] = 0"
    using c2[of "[]"] c1[of "[]"] by simp_all
  have main: "detectDelimiters content st = st\<lparr>delimiterConfig :=
      (case content of
         NotAnArchive \<Rightarrow> (''{{'', ''}}'')
       | Archive z \<Rightarrow>
           (case z docPath of
              None \<Rightarrow> (''{{'', ''}}'')
            | Some xml \<Rightarrow>
                if (\<forall>i. \<not> prefix ''{{'' (drop i xml)) \<and> CHR ''{'' \<in> set xml
                then (''{'', ''}'') else (''{{'', ''}}'')))\<rparr>"
  proof (cases content)
    case NotAnArchive
    then show ?thesis by (simp add: detectDelimiters_def)
  next
    case (Archive z)
    show ?thesis
    proof (cases "z docPath")
      case None
      with Archive e0 show ?thesis
        by (simp add: detectDelimiters_def Let_def del: lits.simps)
    next
      case (Some xml)
      with Archive show ?thesis
        unfolding detectDelimiters_def Let_def
        by (simp only: buffer.case option.case c2 c1 pos) simp
    qed
  qed
  from main c2 c1 show ?thesis by blast
qed

section \<open>DocxManager.healDocumentXml\<close>

text \<open>
  C9. On every archive, healDocumentXml returns an archive whose parts other than
  \<^verbatim>\<open>word/document.xml\<close> are those of the input; the main text part, when present, is
  replaced by its normalized text; and when the main text part is absent the input comes
  back unchanged.
\<close>

theorem healDocumentXml_frame:
  "\<exists>z'. healDocumentXml st (Archive z) = Inr (Archive z')
     \<and> (\<forall>p. p \<noteq> docPath \<longrightarrow> z' p = z p)
     \<and> z' docPath = map_option (\<lambda>xml. normalize xml (fst (delimiterConfig st) = ''{{'')) (z docPath)
     \<and> (z docPath = None \<longrightarrow> z' = z)"
  by (cases "z docPath") (simp_all add: healDocumentXml_def Let_def)

theorem healDocumentXml_frame_witness:
  "(\<exists>z'. healDocumentXml new_manager (Archive sample_pkg) = Inr (Archive z')
      \<and> z' relsPath = sample_pkg relsPath
      \<and> z' docPath = Some (normalize sample_doc True))
   \<and> nodoc_pkg docPath = None
   \<and> healDocumentXml new_manager (Archive nodoc_pkg) = Inr (Archive nodoc_pkg)"
proof -
  from healDocumentXml_frame[of new_manager sample_pkg]
  obtain z' where z: "healDocumentXml new_manager (Archive sample_pkg) = Inr (Archive z')"
    "\<forall>p. p \<noteq> docPath \<longrightarrow> z' p = sample_pkg p"
    "z' docPath = map_option (\<lambda>xml. normalize xml (fst (delimiterConfig new_manager) = ''{{''))
                    (sample_pkg docPath)"
    by (elim exE conjE)
  have "relsPath \<noteq> docPath" by simp
  from z(2)[THEN spec, THEN mp, OF this] have r: "z' relsPath = sample_pkg relsPath" .
  from z(3) have d: "z' docPath = Some (normalize sample_doc True)"
    by (simp add: sample_pkg_def new_manager_def)
  have nd: "nodoc_pkg docPath = None" by (simp add: nodoc_pkg_def)
  from healDocumentXml_frame[of new_manager nodoc_pkg]
  obtain z2 where z2: "healDocumentXml new_manager (Archive nodoc_pkg) = Inr (Archive z2)"
    "nodoc_pkg docPath = None \<longrightarrow> z2 = nodoc_pkg"
    by (elim exE conjE)
  with nd have h: "healDocumentXml new_manager (Archive nodoc_pkg) = Inr (Archive nodoc_pkg)"
    by simp
  have "\<exists>z'. healDocumentXml new_manager (Archive sample_pkg) = Inr (Archive z')
      \<and> z' relsPath = sample_pkg relsPath
      \<and> z' docPath = Some (normalize sample_doc True)"
    using z(1) r d by (intro exI[of _ z'] conjI)
  with nd h show ?thesis by (intro conjI)
qed

section \<open>The pattern of DocxManager.replaceSpecificOccurrences\<close>

lemma pieces_atom:
  "pieces inp (Atom k) s = map (\<lambda>c. if accepts k c then Match [c] [] else Keep c) s"
proof (induction s)
  case Nil
  have "match_at inp (Atom k) [] = None" by (simp add: match_at_def)
  from pieces_Nil_nomatch[OF this] show ?case by simp
next
  case (Cons x xs)
  show ?case
  proof (cases "accepts k x")
    case True
    then have "match_at inp (Atom k) (x # xs) = Some (xs, [])" by (simp add: match_at_def)
    from pieces_match[OF this] Cons True show ?thesis by simp
  next
    case False
    then have "match_at inp (Atom k) (x # xs) = None" by (simp add: match_at_def)
    from pieces_Cons_nomatch[OF this] Cons False show ?thesis by simp
  qed
qed

lemma escapeRegExp_eq:
  "escapeRegExp s = concat (map (\<lambda>c. if c \<in> set special_chars then [bksl, c] else [c]) s)"
  unfolding escapeRegExp_def replace_all_def pieces_atom
  by (induction s) auto

lemma escapeRegExp_clean: "\<forall>c\<in>set s. c \<notin> set special_chars \<Longrightarrow> escapeRegExp s = s"
  unfolding escapeRegExp_eq by (induction s) auto

lemma escapeRegExp_first_special:
  "\<forall>c\<in>set pre. c \<notin> set special_chars \<Longrightarrow> x \<in> set special_chars \<Longrightarrow>
   escapeRegExp (pre @ x # rest) = pre @ bksl # x # escapeRegExp rest"
  unfolding escapeRegExp_eq by (induction pre) auto

lemma pstep_clean:
  "c \<notin> set special_chars \<Longrightarrow>
   pstep (PS ((i, items) # rest) n Normal) c = PS ((i, Atom (Is c) # items) # rest) n Normal"
  by (auto simp: special_chars_def push_atom_def)

lemma parse_sep:
  "foldl pstep (PS ((i, a # items) # rest) n Normal) ''(<[^>]+>)*''
     = PS ((i, Star (Grp (Suc n) MARKUP) # a # items) # rest) (Suc n) Normal"
  by (simp add: push_atom_def quantify_def MARKUP_def Plus_def)

lemma parse_sep_escaped:
  "foldl pstep (PS [(i, items)] n Escaped) ''(<[^>]+>)*'' = PSyntaxError"
  by (simp add: push_atom_def quantify_def syntax_chars_def Plus_def)

lemma parse_error_absorbs: "foldl pstep PSyntaxError t = PSyntaxError"
  by (induction t) auto

lemma join_Cons_nonempty: "ys \<noteq> [] \<Longrightarrow> join sep (x # ys) = x @ sep @ join sep ys"
  by (cases ys) simp_all

lemma parse_clean:
  "\<forall>c\<in>set cs. c \<notin> set special_chars \<Longrightarrow> cs \<noteq> [] \<Longrightarrow>
   foldl pstep (PS [(0, items)] n Normal) (join ''(<[^>]+>)*'' (map (\<lambda>c. [c]) cs))
     = PS [(0, rev (tolerant_items n cs) @ items)] (n + length cs - 1) Normal"
proof (induction cs arbitrary: items n)
  case Nil
  then show ?case by simp
next
  case (Cons c cs)
  from Cons.prems have c: "c \<notin> set special_chars" by simp
  show ?case
  proof (cases cs)
    case Nil
    have "foldl pstep (PS [(0, items)] n Normal) [c] = PS [(0, Atom (Is c) # items)] n Normal"
      using pstep_clean[OF c, of 0 items "[]" n] by (simp del: pstep.simps)
    with Nil show ?thesis by (simp del: pstep.simps)
  next
    case (Cons c' cs')
    define sep where "sep = ''(<[^>]+>)*''"
    have j: "join sep (map (\<lambda>c. [c]) (c # cs)) = [c] @ sep @ join sep (map (\<lambda>c. [c]) cs)"
      using Cons by (simp add: join_Cons_nonempty)
    have s1: "foldl pstep (PS [(0, items)] n Normal) [c] = PS [(0, Atom (Is c) # items)] n Normal"
      using pstep_clean[OF c, of 0 items "[]" n] by (simp del: pstep.simps)
    have s2: "foldl pstep (PS [(0, Atom (Is c) # items)] n Normal) sep
        = PS [(0, Star (Grp (Suc n) MARKUP) # Atom (Is c) # items)] (Suc n) Normal"
      unfolding sep_def by (rule parse_sep)
    have ih: "foldl pstep (PS [(0, Star (Grp (Suc n) MARKUP) # Atom (Is c) # items)] (Suc n) Normal)
          (join sep (map (\<lambda>c. [c]) cs))
        = PS [(0, rev (tolerant_items (Suc n) cs) @ Star (Grp (Suc n) MARKUP) # Atom (Is c) # items)]
             (Suc n + length cs - 1) Normal"
      unfolding sep_def using Cons.prems Cons by (intro Cons.IH) simp_all
    have t: "tolerant_items n (c # cs) = Atom (Is c) # Star (Grp (Suc n) MARKUP) # tolerant_items (Suc n) cs"
      using Cons by simp
    have "foldl pstep (PS [(0, items)] n Normal) (join sep (map (\<lambda>c. [c]) (c # cs)))
        = PS [(0, rev (tolerant_items (Suc n) cs) @ Star (Grp (Suc n) MARKUP) # Atom (Is c) # items)]
             (Suc n + length cs - 1) Normal"
      unfolding j foldl_append s1 s2 ih ..
    then show ?thesis unfolding t sep_def using Cons by simp
  qed
qed

lemma parse_special:
  "\<forall>c\<in>set pre. c \<notin> set special_chars \<Longrightarrow>
   foldl pstep (PS [(0, items)] n Normal)
     (join ''(<[^>]+>)*'' (map (\<lambda>c. [c]) (pre @ bksl # x # tl0))) = PSyntaxError"
proof (induction pre arbitrary: items n)
  case Nil
  define sep where "sep = ''(<[^>]+>)*''"
  have j: "join sep (map (\<lambda>c. [c]) ([] @ bksl # x # tl0))
      = [bksl] @ sep @ join sep (map (\<lambda>c. [c]) (x # tl0))"
    by (simp add: join_Cons_nonempty)
  have s1: "foldl pstep (PS [(0, items)] n Normal) [bksl] = PS [(0, items)] n Escaped" by simp
  have s2: "foldl pstep (PS [(0, items)] n Escaped) sep = PSyntaxError"
    unfolding sep_def by (rule parse_sep_escaped)
  have "foldl pstep (PS [(0, items)] n Normal) (join sep (map (\<lambda>c. [c]) ([] @ bksl # x # tl0)))
      = PSyntaxError"
    unfolding j foldl_append s1 s2 by (rule parse_error_absorbs)
  then show ?case unfolding sep_def .
next
  case (Cons c pre)
  define sep where "sep = ''(<[^>]+>)*''"
  from Cons.prems have c: "c \<notin> set special_chars" by simp
  have j: "join sep (map (\<lambda>c. [c]) ((c # pre) @ bksl # x # tl0))
      = [c] @ sep @ join sep (map (\<lambda>c. [c]) (pre @ bksl # x # tl0))"
    by (simp add: join_Cons_nonempty)
  have s1: "foldl pstep (PS [(0, items)] n Normal) [c] = PS [(0, Atom (Is c) # items)] n Normal"
    using pstep_clean[OF c, of 0 items "[]" n] by (simp del: pstep.simps)
  have s2: "foldl pstep (PS [(0, Atom (Is c) # items)] n Normal) sep
      = PS [(0, Star (Grp (Suc n) MARKUP) # Atom (Is c) # items)] (Suc n) Normal"
    unfolding sep_def by (rule parse_sep)
  have ih: "foldl pstep (PS [(0, Star (Grp (Suc n) MARKUP) # Atom (Is c) # items)] (Suc n) Normal)
        (join sep (map (\<lambda>c. [c]) (pre @ bksl # x # tl0))) = PSyntaxError"
    unfolding sep_def using Cons.prems by (intro Cons.IH) simp
  have "foldl pstep (PS [(0, items)] n Normal)
      (join sep (map (\<lambda>c. [c]) ((c # pre) @ bksl # x # tl0))) = PSyntaxError"
    unfolding j foldl_append s1 s2 ih ..
  then show ?case unfolding sep_def .
qed

lemma newRegExp_clean:
  assumes "\<forall>c\<in>set s. c \<notin> set special_chars"
  shows "newRegExp (patternString s) = Parsed (tolerant_rx s)"
proof (cases s)
  case Nil
  then show ?thesis
    by (simp add: newRegExp_def patternString_def escapeRegExp_eq tolerant_rx_def)
next
  case (Cons c cs)
  then have ne: "s \<noteq> []" by simp
  have "patternString s = join ''(<[^>]+>)*'' (map (\<lambda>c. [c]) s)"
    using assms by (simp add: patternString_def escapeRegExp_clean)
  then show ?thesis
    unfolding newRegExp_def using parse_clean[OF assms ne, of "[]" 0]
    by (simp add: tolerant_rx_def)
qed

lemma split_first_special:
  "\<exists>c\<in>set s. P c \<Longrightarrow> \<exists>pre x rest. s = pre @ x # rest \<and> (\<forall>c\<in>set pre. \<not> P c) \<and> P x"
  by (metis split_list_first_prop)

lemma newRegExp_special:
  assumes "\<exists>c\<in>set s. c \<in> set special_chars"
  shows "newRegExp (patternString s) = SyntaxError"
proof -
  from split_first_special[OF assms] obtain pre x rest where
    s: "s = pre @ x # rest" and pre: "\<forall>c\<in>set pre. c \<notin> set special_chars"
    and x: "x \<in> set special_chars" by blast
  have "escapeRegExp s = pre @ bksl # x # escapeRegExp rest"
    unfolding s using pre x by (rule escapeRegExp_first_special)
  then have "patternString s
      = join ''(<[^>]+>)*'' (map (\<lambda>c. [c]) (pre @ bksl # x # escapeRegExp rest))"
    by (simp add: patternString_def)
  then show ?thesis
    unfolding newRegExp_def using parse_special[OF pre, of "[]" 0 x "escapeRegExp rest"]
    by simp
qed

section \<open>DocxManager.replaceSpecificOccurrences\<close>

lemma replace_stateful_count:
  "snd (replace_stateful (occurrence_callback tag idxs) ps k) = k + length (hits ps)"
proof (induction ps arbitrary: k)
  case Nil
  then show ?case by simp
next
  case (Cons p ps)
  show ?case
  proof (cases p)
    case (Keep c)
    with Cons[of k] show ?thesis by (auto split: prod.splits)
  next
    case (Match m cs)
    with Cons[of "Suc k"] show ?thesis
      by (auto simp: occurrence_callback_def split: prod.splits)
  qed
qed

text \<open>
  C2. When the document is loaded, the pattern compiles and the case-sensitive pass over the
  main text part finds no match, replaceSpecificOccurrences raises the text-not-found error
  and the manager is exactly as before the call: the archive is not written and no reload
  takes place.
\<close>

theorem replaceSpecificOccurrences_not_found:
  assumes "zipA st = Some z" and "z docPath = Some xml"
      and "newRegExp (patternString searchText) = Parsed regex"
      and "matches_of regex xml = []"
  shows "replaceSpecificOccurrences templater searchText tagName indicesToReplace st
           = (Some (TextNotFound searchText), st)"
proof -
  obtain xml' matchCount where r:
    "replace_stateful (occurrence_callback (''{{'' @ tagName @ ''}}'') indicesToReplace)
        (pieces xml regex xml) 0 = (xml', matchCount)"
    by (metis surj_pair)
  from replace_stateful_count[of "''{{'' @ tagName @ ''}}''" indicesToReplace "pieces xml regex xml" 0]
  have "matchCount = 0"
    using r assms(4) by (simp add: matches_of_hits del: append.simps)
  with assms(1-3) r show ?thesis
    by (simp add: replaceSpecificOccurrences_def Let_def del: append.simps)
qed

lemma clean_Acme: "\<forall>c\<in>set ''Acme''. c \<notin> set special_chars"
  by (simp add: special_chars_def)

lemma no_Acme_in_sample: "matches_of (tolerant_rx ''Acme'') sample_doc = []"
  by code_simp

theorem replaceSpecificOccurrences_not_found_witness:
  "zipA loaded_sample = Some sample_pkg
   \<and> sample_pkg docPath = Some sample_doc
   \<and> newRegExp (patternString ''Acme'') = Parsed (tolerant_rx ''Acme'')
   \<and> matches_of (tolerant_rx ''Acme'') sample_doc = []
   \<and> replaceSpecificOccurrences (\<lambda>z d. Built) ''Acme'' ''client'' [0] loaded_sample
        = (Some (TextNotFound ''Acme''), loaded_sample)"
proof -
  have h1: "zipA loaded_sample = Some sample_pkg" by (simp add: loaded_sample_def)
  have h2: "sample_pkg docPath = Some sample_doc" by (simp add: sample_pkg_def)
  have h3: "newRegExp (patternString ''Acme'') = Parsed (tolerant_rx ''Acme'')"
    using clean_Acme by (rule newRegExp_clean)
  note h4 = no_Acme_in_sample
  from replaceSpecificOccurrences_not_found[OF h1 h2 h3 h4, of "\<lambda>z d. Built" "''client''" "[0]"]
    h1 h2 h3 h4
  show ?thesis by (intro conjI)
qed

lemma replaceSpecificOccurrences_special:
  assumes "zipA st = Some z" and "z docPath = Some xml"
      and "\<exists>c\<in>set searchText. c \<in> set special_chars"
  shows "replaceSpecificOccurrences templater searchText tagName indicesToReplace st
           = (Some RegexSyntaxError, st)"
  using assms(1,2) newRegExp_special[OF assms(3)]
  by (simp add: replaceSpecificOccurrences_def)

text \<open>
  C1 fails on the code for every search text that holds one of the characters
  \<^verbatim>\<open>. * + ? ^ $ { } ( ) | [ ] \\<close>. The source escapes them
  (\<^verbatim>\<open>searchText.replace(/[.*+?^${}()|[\]\\]/g, '\\$&')\<close>) and then splits the escaped
  string into single characters and joins them with \<^verbatim>\<open>(<[^>]+>)*\<close>: the backslash is
  separated from the character it escapes and escapes the opening parenthesis of the
  separator instead, so the closing parenthesis is unmatched and \<^verbatim>\<open>new RegExp\<close> throws.
  For the search text \<^verbatim>\<open>3.5\<close> the pattern is
  \<^verbatim>\<open>3(<[^>]+>)*\(<[^>]+>)*.(<[^>]+>)*5\<close>; on a document that holds \<^verbatim>\<open>3.5\<close> the call
  raises a syntax error and replaces nothing.
\<close>

theorem replaceSpecificOccurrences_special_char_fails:
  "replaceSpecificOccurrences templater ''3.5'' ''price'' [0] loaded_price
     = (Some RegexSyntaxError, loaded_price)"
proof -
  have h1: "zipA loaded_price = Some price_pkg" by (simp add: loaded_price_def)
  have h2: "price_pkg docPath = Some price_doc" by (simp add: price_pkg_def)
  have h3: "\<exists>c\<in>set ''3.5''. c \<in> set special_chars" by (simp add: special_chars_def)
  from h1 h2 h3 show ?thesis by (rule replaceSpecificOccurrences_special)
qed

section \<open>TagDetector.findTags\<close>

lemma set_insert_by: "set (insert_by cmp x ys) = insert x (set ys)"
  by (induction ys) auto

lemma set_sort_by: "set (sort_by cmp xs) = set xs"
  unfolding sort_by_def by (induction xs) (simp_all add: set_insert_by)

lemma distinct_map_insert_by:
  "distinct (map f (insert_by cmp x ys)) = (f x \<notin> f ` set ys \<and> distinct (map f ys))"
  by (induction ys) (auto simp: set_insert_by)

lemma distinct_map_sort_by: "distinct (map f (sort_by cmp xs)) = distinct (map f xs)"
  unfolding sort_by_def
proof (induction xs)
  case Nil
  then show ?case by simp
next
  case (Cons x xs)
  have "set (foldr (insert_by cmp) xs []) = set xs"
    using set_sort_by[of cmp xs] by (simp add: sort_by_def)
  with Cons show ?case by (simp add: distinct_map_insert_by)
qed

lemma sorted_insert_by:
  assumes total: "\<forall>a b. cmp a b \<le> 0 \<or> cmp b a \<le> 0"
      and trans: "\<forall>a b c. cmp a b \<le> 0 \<and> cmp b c \<le> 0 \<longrightarrow> cmp a c \<le> 0"
  shows "sorted_wrt (\<lambda>a b. cmp a b \<le> 0) ys \<Longrightarrow> sorted_wrt (\<lambda>a b. cmp a b \<le> (0::int)) (insert_by cmp x ys)"
proof (induction ys)
  case Nil
  then show ?case by simp
next
  case (Cons y ys)
  show ?case
  proof (cases "cmp x y \<le> 0")
    case True
    have "\<forall>z\<in>set ys. cmp x z \<le> 0"
    proof
      fix z assume "z \<in> set ys"
      with Cons.prems have "cmp y z \<le> 0" by simp
      with True trans show "cmp x z \<le> 0" by blast
    qed
    with True Cons.prems show ?thesis by simp
  next
    case False
    with total have "cmp y x \<le> 0" by blast
    moreover from Cons.prems have "sorted_wrt (\<lambda>a b. cmp a b \<le> 0) ys" by simp
    then have "sorted_wrt (\<lambda>a b. cmp a b \<le> 0) (insert_by cmp x ys)" by (rule Cons.IH)
    ultimately show ?thesis using False Cons.prems by (simp add: set_insert_by)
  qed
qed

lemma sorted_sort_by:
  assumes total: "\<forall>a b. cmp a b \<le> 0 \<or> cmp b a \<le> 0"
      and trans: "\<forall>a b c. cmp a b \<le> 0 \<and> cmp b c \<le> 0 \<longrightarrow> cmp a c \<le> 0"
  shows "sorted_wrt (\<lambda>a b. cmp a b \<le> (0::int)) (sort_by cmp xs)"
  unfolding sort_by_def
  by (induction xs) (simp_all add: sorted_insert_by[OF total trans])

lemma addTag_fold_invariant:
  assumes "seen0 = set (map tag_name tags0)" and "distinct (map tag_name tags0)"
      and "foldl (\<lambda>st (m, nameText). addTag m nameText st) (tags0, seen0) xs = (tags, seen)"
  shows "seen = set (map tag_name tags) \<and> distinct (map tag_name tags)
     \<and> (\<forall>t\<in>set tags. t \<in> set tags0 \<or>
          (tag_name t \<notin> seen0 \<and> tag_name t \<noteq> [] \<and>
           (\<exists>n. find (\<lambda>(m, n). trim n = tag_name t) xs = Some (tag_raw t, n))))
     \<and> set (map tag_name tags) = seen0 \<union> {trim n | m n. (m, n) \<in> set xs \<and> trim n \<noteq> []}"
  using assms
proof (induction xs arbitrary: tags0 seen0)
  case Nil
  then show ?case by auto
next
  case (Cons x xs)
  obtain m n where x: "x = (m, n)" by (cases x)
  show ?case
  proof (cases "trim n \<noteq> [] \<and> trim n \<notin> seen0")
    case True
    define t0 where "t0 = \<lparr>tag_id = trim n, tag_raw = m, tag_name = trim n\<rparr>"
    have step: "addTag m n (tags0, seen0) = (tags0 @ [t0], insert (trim n) seen0)"
      using True by (simp add: addTag_def Let_def t0_def)
    have i1: "insert (trim n) seen0 = set (map tag_name (tags0 @ [t0]))"
      using Cons.prems(1) by (simp add: t0_def)
    have i2: "distinct (map tag_name (tags0 @ [t0]))"
      using Cons.prems(1,2) True by (simp add: t0_def)
    from Cons.prems(3) have f: "foldl (\<lambda>st (m, nameText). addTag m nameText st)
        (tags0 @ [t0], insert (trim n) seen0) xs = (tags, seen)"
      by (simp add: x step)
    note ih = Cons.IH[OF i1 i2 f]
    have first: "\<forall>t\<in>set tags. t \<in> set tags0 \<or>
          (tag_name t \<notin> seen0 \<and> tag_name t \<noteq> [] \<and>
           (\<exists>n'. find (\<lambda>(m, n). trim n = tag_name t) (x # xs) = Some (tag_raw t, n')))"
    proof
      fix t assume "t \<in> set tags"
      with ih have "t \<in> set (tags0 @ [t0]) \<or>
          (tag_name t \<notin> insert (trim n) seen0 \<and> tag_name t \<noteq> [] \<and>
           (\<exists>n'. find (\<lambda>(m, n). trim n = tag_name t) xs = Some (tag_raw t, n')))"
        by blast
      then consider "t \<in> set tags0" | "t = t0"
        | "tag_name t \<notin> insert (trim n) seen0" "tag_name t \<noteq> []"
          "\<exists>n'. find (\<lambda>(m, n). trim n = tag_name t) xs = Some (tag_raw t, n')"
        by auto
      then show "t \<in> set tags0 \<or>
          (tag_name t \<notin> seen0 \<and> tag_name t \<noteq> [] \<and>
           (\<exists>n'. find (\<lambda>(m, n). trim n = tag_name t) (x # xs) = Some (tag_raw t, n')))"
      proof cases
        case 1
        then show ?thesis by simp
      next
        case 2
        with True show ?thesis by (simp add: x t0_def)
      next
        case 3
        then show ?thesis by (auto simp: x)
      qed
    qed
    have names: "set (map tag_name tags)
        = seen0 \<union> {trim n' | m' n'. (m', n') \<in> set (x # xs) \<and> trim n' \<noteq> []}"
    proof -
      from ih have "set (map tag_name tags)
          = insert (trim n) seen0 \<union> {trim n' | m' n'. (m', n') \<in> set xs \<and> trim n' \<noteq> []}"
        by blast
      also have "\<dots> = seen0 \<union> {trim n' | m' n'. (m', n') \<in> set (x # xs) \<and> trim n' \<noteq> []}"
        using True by (auto simp: x)
      finally show ?thesis .
    qed
    from ih first names show ?thesis by blast
  next
    case False
    have step: "addTag m n (tags0, seen0) = (tags0, seen0)"
      using False by (auto simp: addTag_def Let_def)
    from Cons.prems(3) have f: "foldl (\<lambda>st (m, nameText). addTag m nameText st)
        (tags0, seen0) xs = (tags, seen)"
      by (simp add: x step)
    note ih = Cons.IH[OF Cons.prems(1,2) f]
    have first: "\<forall>t\<in>set tags. t \<in> set tags0 \<or>
          (tag_name t \<notin> seen0 \<and> tag_name t \<noteq> [] \<and>
           (\<exists>n'. find (\<lambda>(m, n). trim n = tag_name t) (x # xs) = Some (tag_raw t, n')))"
    proof
      fix t assume "t \<in> set tags"
      with ih consider "t \<in> set tags0"
        | "tag_name t \<notin> seen0" "tag_name t \<noteq> []"
          "\<exists>n'. find (\<lambda>(m, n). trim n = tag_name t) xs = Some (tag_raw t, n')"
        by blast
      then show "t \<in> set tags0 \<or>
          (tag_name t \<notin> seen0 \<and> tag_name t \<noteq> [] \<and>
           (\<exists>n'. find (\<lambda>(m, n). trim n = tag_name t) (x # xs) = Some (tag_raw t, n')))"
      proof cases
        case 1
        then show ?thesis by simp
      next
        case 2
        with False have "trim n \<noteq> tag_name t" by auto
        with 2 show ?thesis by (simp add: x)
      qed
    qed
    have names: "set (map tag_name tags)
        = seen0 \<union> {trim n' | m' n'. (m', n') \<in> set (x # xs) \<and> trim n' \<noteq> []}"
    proof -
      from ih have "set (map tag_name tags)
          = seen0 \<union> {trim n' | m' n'. (m', n') \<in> set xs \<and> trim n' \<noteq> []}"
        by blast
      also have "\<dots> = seen0 \<union> {trim n' | m' n'. (m', n') \<in> set (x # xs) \<and> trim n' \<noteq> []}"
        using False by (auto simp: x)
      finally show ?thesis .
    qed
    from ih first names show ?thesis by blast
  qed
qed

text \<open>
  C7. \<^verbatim>\<open>localeCompare\<close> is the host's locale-sensitive string comparison; it is a
  parameter here, assumed to be a total preorder (any two names compare, and the comparison
  is transitive), which ECMAScript requires of it. For every input text: the names of the
  result are pairwise distinct; every entry carries the raw text of the first candidate
  (in match order) whose trimmed inner text is the entry's name; the names are exactly the
  non-empty trimmed inner texts of the candidates; and the result is sorted by name under
  that comparison. The order is the host's, not the order of the character codes: under a
  collation, \<^verbatim>\<open>apple\<close> comes before \<^verbatim>\<open>Zebra\<close>.
\<close>

theorem findTags_unique_first_sorted:
  assumes total: "\<forall>a b. localeCompare a b \<le> 0 \<or> localeCompare b a \<le> 0"
      and trans: "\<forall>a b c. localeCompare a b \<le> 0 \<and> localeCompare b c \<le> 0 \<longrightarrow> localeCompare a c \<le> 0"
  shows "distinct (map tag_name (findTags localeCompare fullText))
     \<and> (\<forall>t\<in>set (findTags localeCompare fullText).
           \<exists>n. find (\<lambda>(m, n). trim n = tag_name t) (candidates fullText) = Some (tag_raw t, n))
     \<and> set (map tag_name (findTags localeCompare fullText))
          = {trim n | m n. (m, n) \<in> set (candidates fullText) \<and> trim n \<noteq> []}
     \<and> sorted_wrt (\<lambda>a b. localeCompare (tag_name a) (tag_name b) \<le> 0)
          (findTags localeCompare fullText)"
proof -
  define cmp :: "DocxTag \<Rightarrow> DocxTag \<Rightarrow> int"
    where "cmp = (\<lambda>a b. localeCompare (tag_name a) (tag_name b))"
  obtain tags seen where f:
    "foldl (\<lambda>st (m, nameText). addTag m nameText st) ([], {}) (candidates fullText) = (tags, seen)"
    by (metis surj_pair)
  have res: "findTags localeCompare fullText = sort_by cmp tags"
    by (simp add: findTags_def f cmp_def)
  have "{} = set (map tag_name ([] :: DocxTag list))" "distinct (map tag_name ([] :: DocxTag list))"
    by simp_all
  from addTag_fold_invariant[OF this f]
  have d: "distinct (map tag_name tags)"
    and fst: "\<forall>t\<in>set tags. \<exists>n. find (\<lambda>(m, n). trim n = tag_name t) (candidates fullText)
                = Some (tag_raw t, n)"
    and nm: "set (map tag_name tags)
          = {trim n | m n. (m, n) \<in> set (candidates fullText) \<and> trim n \<noteq> []}"
    by auto
  have t1: "\<forall>a b. cmp a b \<le> 0 \<or> cmp b a \<le> 0" using total by (simp add: cmp_def)
  have t2: "\<forall>a b c. cmp a b \<le> 0 \<and> cmp b c \<le> 0 \<longrightarrow> cmp a c \<le> 0"
    using trans unfolding cmp_def by blast
  have s: "sorted_wrt (\<lambda>a b. cmp a b \<le> 0) (sort_by cmp tags)"
    using t1 t2 by (rule sorted_sort_by)
  have "distinct (map tag_name (sort_by cmp tags))" using d by (simp add: distinct_map_sort_by)
  moreover have "\<forall>t\<in>set (sort_by cmp tags).
      \<exists>n. find (\<lambda>(m, n). trim n = tag_name t) (candidates fullText) = Some (tag_raw t, n)"
    using fst by (simp add: set_sort_by)
  moreover have "set (map tag_name (sort_by cmp tags))
      = {trim n | m n. (m, n) \<in> set (candidates fullText) \<and> trim n \<noteq> []}"
    using nm by (simp add: set_sort_by)
  ultimately show ?thesis using s unfolding res cmp_def by blast
qed

lemma codeUnitCompare_total: "\<forall>a b. codeUnitCompare a b \<le> 0 \<or> codeUnitCompare b a \<le> 0"
  by (auto simp: codeUnitCompare_def)

lemma codeUnitCompare_trans:
  "\<forall>a b c. codeUnitCompare a b \<le> 0 \<and> codeUnitCompare b c \<le> 0 \<longrightarrow> codeUnitCompare a c \<le> 0"
  by (auto simp: codeUnitCompare_def split: if_splits)

lemma findTags_example:
  "findTags codeUnitCompare ''{{name}} and {{ name }} or {{Abc}}''
     = [\<lparr>tag_id = ''Abc'', tag_raw = ''{{Abc}}'', tag_name = ''Abc''\<rparr>,
        \<lparr>tag_id = ''name'', tag_raw = ''{{name}}'', tag_name = ''name''\<rparr>]"
  by code_simp

theorem findTags_unique_first_sorted_witness:
  "findTags codeUnitCompare ''{{name}} and {{ name }} or {{Abc}}''
     = [\<lparr>tag_id = ''Abc'', tag_raw = ''{{Abc}}'', tag_name = ''Abc''\<rparr>,
        \<lparr>tag_id = ''name'', tag_raw = ''{{name}}'', tag_name = ''name''\<rparr>]
   \<and> distinct (map tag_name (findTags codeUnitCompare ''{{name}} and {{ name }} or {{Abc}}''))
   \<and> sorted_wrt (\<lambda>a b. codeUnitCompare (tag_name a) (tag_name b) \<le> 0)
        (findTags codeUnitCompare ''{{name}} and {{ name }} or {{Abc}}'')"
  using findTags_unique_first_sorted[OF codeUnitCompare_total codeUnitCompare_trans,
      of "''{{name}} and {{ name }} or {{Abc}}''"] findTags_example
  by (intro conjI) (elim conjE, assumption)+

lemma collationCompare_total: "\<forall>a b. collationCompare a b \<le> 0 \<or> collationCompare b a \<le> 0"
  by (auto simp: collationCompare_def Let_def)

lemma collationCompare_trans:
  "\<forall>a b c. collationCompare a b \<le> 0 \<and> collationCompare b c \<le> 0 \<longrightarrow> collationCompare a c \<le> 0"
  by (auto simp: collationCompare_def Let_def split: if_splits)

lemma collation_example:
  "findTags collationCompare ''{{Zebra}} and {{apple}}''
     = [\<lparr>tag_id = ''apple'', tag_raw = ''{{apple}}'', tag_name = ''apple''\<rparr>,
        \<lparr>tag_id = ''Zebra'', tag_raw = ''{{Zebra}}'', tag_name = ''Zebra''\<rparr>]"
  by code_simp

lemma collation_cmp:
  "collationCompare ''apple'' ''Zebra'' = - 1" "codeUnitCompare ''apple'' ''Zebra'' = 1"
  by code_simp+

theorem findTags_collation_counterexample:
  "findTags collationCompare ''{{Zebra}} and {{apple}}''
     = [\<lparr>tag_id = ''apple'', tag_raw = ''{{apple}}'', tag_name = ''apple''\<rparr>,
        \<lparr>tag_id = ''Zebra'', tag_raw = ''{{Zebra}}'', tag_name = ''Zebra''\<rparr>]
   \<and> collationCompare ''apple'' ''Zebra'' = - 1
   \<and> codeUnitCompare ''apple'' ''Zebra'' = 1
   \<and> \<not> sorted_wrt (\<lambda>a b. codeUnitCompare (tag_name a) (tag_name b) \<le> 0)
         (findTags collationCompare ''{{Zebra}} and {{apple}}'')"
  unfolding collation_example by (simp add: collation_cmp)

section \<open>Facts about the matcher\<close>

lemma in_guarded_concat:
  "x \<in> set (concat (map (\<lambda>y. if P y then f y else []) ys)) \<Longrightarrow> \<exists>y\<in>set ys. P y \<and> x \<in> set (f y)"
  by (induction ys) (auto split: if_splits)

lemma ms_length: "st' \<in> set (ms inp r st) \<Longrightarrow> length (fst st') \<le> length (fst st)"
proof (induction inp r st arbitrary: st' rule: ms.induct)
  case (1 inp st)
  then show ?case by simp
next
  case (2 inp k st)
  then show ?case by (cases "fst st") (auto split: if_splits)
next
  case (3 inp a b st)
  from "3.prems" have "st' \<in> set (concat (map (\<lambda>st'. if length (fst st') \<le> length (fst st)
      then ms inp b st' else []) (ms inp a st)))"
    by (simp only: ms.simps(3))
  from in_guarded_concat[OF this] obtain st1 where st1: "st1 \<in> set (ms inp a st)"
    "length (fst st1) \<le> length (fst st)" "st' \<in> set (ms inp b st1)"
    by blast
  from "3.IH"(2)[OF st1(1,2,3)] st1(2) show ?case by (rule order_trans)
next
  case (4 inp a st)
  from "4.prems" have "st' \<in> set (concat (map (\<lambda>st'. if length (fst st') < length (fst st)
      then ms inp (Star a) st' else []) (ms inp a st)) @ [st])"
    by (simp only: ms.simps(4)[of inp a st])
  then have "st' = st \<or> st' \<in> set (concat (map (\<lambda>st'. if length (fst st') < length (fst st)
      then ms inp (Star a) st' else []) (ms inp a st)))"
    by (simp only: set_append list.set) blast
  then show ?case
  proof
    assume "st' = st"
    then show ?thesis by simp
  next
    assume "st' \<in> set (concat (map (\<lambda>st'. if length (fst st') < length (fst st)
      then ms inp (Star a) st' else []) (ms inp a st)))"
    from in_guarded_concat[OF this] obtain st1 where st1: "st1 \<in> set (ms inp a st)"
      "length (fst st1) < length (fst st)" "st' \<in> set (ms inp (Star a) st1)"
      by blast
    from "4.IH"(2)[OF st1(1,2,3)] st1(2) show ?thesis by linarith
  qed
next
  case (5 inp a st)
  from "5.prems" have "st' \<in> set (st # concat (map (\<lambda>st'. if length (fst st') < length (fst st)
      then ms inp (LazyStar a) st' else []) (ms inp a st)))"
    by (simp only: ms.simps(5)[of inp a st])
  then have "st' = st \<or> st' \<in> set (concat (map (\<lambda>st'. if length (fst st') < length (fst st)
      then ms inp (LazyStar a) st' else []) (ms inp a st)))"
    by (simp only: list.set) blast
  then show ?case
  proof
    assume "st' = st"
    then show ?thesis by simp
  next
    assume "st' \<in> set (concat (map (\<lambda>st'. if length (fst st') < length (fst st)
      then ms inp (LazyStar a) st' else []) (ms inp a st)))"
    from in_guarded_concat[OF this] obtain st1 where st1: "st1 \<in> set (ms inp a st)"
      "length (fst st1) < length (fst st)" "st' \<in> set (ms inp (LazyStar a) st1)"
      by blast
    from "5.IH"(2)[OF st1(1,2,3)] st1(2) show ?thesis by linarith
  qed
next
  case (6 inp n a st)
  then show ?case by auto
next
  case (7 inp c st)
  then show ?case by (auto split: if_splits)
next
  case (8 inp c st)
  then show ?case by (cases "fst st") (auto split: if_splits)
qed

lemma ms_Seq: "ms inp (Seq a b) st = concat (map (ms inp b) (ms inp a st))"
proof -
  have "map (\<lambda>st'. if length (fst st') \<le> length (fst st) then ms inp b st' else []) (ms inp a st)
      = map (ms inp b) (ms inp a st)"
    by (rule map_cong) (auto dest: ms_length)
  then show ?thesis by (simp only: ms.simps(3))
qed

declare ms.simps(3) [simp del]

lemma ms_atom_Cons:
  "ms inp (Atom k) (x # xs, cs) = (if accepts k x then [(xs, cs)] else [])"
  "ms inp (Atom k) ([], cs) = []"
  by simp_all

lemma ms_star_atom:
  "ms inp (Star (Atom k)) ([], cs) = [([], cs)]"
  "ms inp (Star (Atom k)) (x # xs, cs)
     = (if accepts k x then ms inp (Star (Atom k)) (xs, cs) @ [(x # xs, cs)] else [(x # xs, cs)])"
  by (simp_all add: ms.simps(4)[of inp "Atom k" "([], cs)"] ms.simps(4)[of inp "Atom k" "(x # xs, cs)"])

lemma ms_lazy_atom:
  "ms inp (LazyStar (Atom k)) ([], cs) = [([], cs)]"
  "ms inp (LazyStar (Atom k)) (x # xs, cs)
     = (x # xs, cs) # (if accepts k x then ms inp (LazyStar (Atom k)) (xs, cs) else [])"
  by (simp_all add: ms.simps(5)[of inp "Atom k" "([], cs)"] ms.simps(5)[of inp "Atom k" "(x # xs, cs)"])

section \<open>TagNormalizer: the markup pattern\<close>

lemma ms_markup_tail:
  "concat (map (ms inp (Atom (Is CHR ''>''))) (ms inp (Star (Atom (NoneOf ''>''))) (s, cs)))
     = (case after_gt s of None \<Rightarrow> [] | Some r \<Rightarrow> [(r, cs)])"
  by (induction s) (simp_all add: ms_star_atom)

lemma ms_MARKUP:
  "ms inp MARKUP (s, cs) = (case markup_end s of None \<Rightarrow> [] | Some r \<Rightarrow> [(r, cs)])"
proof (cases s)
  case Nil
  then show ?thesis by (simp add: MARKUP_def ms_Seq)
next
  case (Cons c t)
  show ?thesis
  proof (cases t)
    case Nil
    with Cons show ?thesis by (simp add: MARKUP_def ms_Seq Plus_def)
  next
    case (Cons x xs)
    with \<open>s = c # t\<close> show ?thesis
      by (simp add: MARKUP_def ms_Seq Plus_def ms_markup_tail)
  qed
qed

lemma match_at_MARKUP:
  "match_at inp MARKUP s = map_option (\<lambda>r. (r, [])) (markup_end s)"
  by (simp add: match_at_def ms_MARKUP split: option.splits)

lemma render_del_simps [simp]:
  "render_del [] = []" "render_del (Keep c # ps) = c # render_del ps"
  "render_del (Match m cs # ps) = render_del ps"
  by (simp_all add: render_del_def)

lemma after_gt_None: "(after_gt t = None) = (CHR ''>'' \<notin> set t)"
  by (induction t) auto

lemma after_gt_length: "after_gt t = Some r \<Longrightarrow> length r < length t"
  by (induction t) (auto split: if_splits)

lemma markup_end_length: "markup_end s = Some r \<Longrightarrow> length r < length s"
  by (induction s rule: markup_end.induct) (auto split: if_splits dest: after_gt_length)

lemma markup_end_None_iff:
  "(markup_end (x # t) = None)
     = (x \<noteq> CHR ''<'' \<or> (case t of [] \<Rightarrow> True | y # ys \<Rightarrow> y = CHR ''>'' \<or> CHR ''>'' \<notin> set ys))"
  by (cases t) (auto simp: after_gt_None)

lemma pieces_MARKUP_Nil: "pieces inp MARKUP [] = []"
  by (rule pieces_Nil_nomatch) (simp add: match_at_MARKUP)

lemma pieces_MARKUP_keep:
  "markup_end (x # xs) = None \<Longrightarrow> pieces inp MARKUP (x # xs) = Keep x # pieces inp MARKUP xs"
  by (rule pieces_Cons_nomatch) (simp add: match_at_MARKUP)

lemma pieces_MARKUP_match:
  "markup_end s = Some r \<Longrightarrow>
   pieces inp MARKUP s = Match (take (length s - length r) s) [] # pieces inp MARKUP r"
  by (rule pieces_match) (simp_all add: match_at_MARKUP markup_end_length)

lemma set_render_MARKUP: "set (render_del (pieces inp MARKUP s)) \<subseteq> set s"
proof (induction s rule: length_induct)
  case (1 s)
  show ?case
  proof (cases "markup_end s")
    case None
    show ?thesis
    proof (cases s)
      case Nil
      then show ?thesis by (simp add: pieces_MARKUP_Nil)
    next
      case (Cons x xs)
      with None 1 show ?thesis by (auto simp: pieces_MARKUP_keep)
    qed
  next
    case (Some r)
    from markup_end_length[OF Some] 1 have "set (render_del (pieces inp MARKUP r)) \<subseteq> set r"
      by blast
    moreover have "set r \<subseteq> set s"
    proof -
      have a: "\<And>t r. after_gt t = Some r \<Longrightarrow> set r \<subseteq> set t"
      proof -
        fix t r show "after_gt t = Some r \<Longrightarrow> set r \<subseteq> set t"
          by (induction t) (auto split: if_splits)
      qed
      from Some show ?thesis
        by (induction s rule: markup_end.induct) (auto split: if_splits dest: a)
    qed
    ultimately show ?thesis using Some by (auto simp: pieces_MARKUP_match)
  qed
qed

lemma nomk_render_MARKUP: "nomk (render_del (pieces inp MARKUP s))"
proof (induction s rule: length_induct)
  case (1 s)
  show ?case
  proof (cases "markup_end s")
    case (Some r)
    from markup_end_length[OF Some] 1 have "nomk (render_del (pieces inp MARKUP r))" by blast
    with Some show ?thesis by (simp add: pieces_MARKUP_match)
  next
    case None
    show ?thesis
    proof (cases s)
      case Nil
      then show ?thesis by (simp add: pieces_MARKUP_Nil)
    next
      case (Cons x xs)
      define R where "R = render_del (pieces inp MARKUP xs)"
      from 1 Cons have nR: "nomk R" unfolding R_def by simp
      have rs: "render_del (pieces inp MARKUP s) = x # R"
        using None Cons by (simp add: pieces_MARKUP_keep R_def)
      have "markup_end (x # R) = None"
      proof (cases "x = CHR ''<''")
        case False
        then show ?thesis by (simp add: markup_end_None_iff after_gt_None)
      next
        case True
        show ?thesis
        proof (cases xs)
          case Nil
          then have "R = []" by (simp add: R_def pieces_MARKUP_Nil)
          then show ?thesis by simp
        next
          case (Cons y ys)
          show ?thesis
          proof (cases "y = CHR ''>''")
            case yt: True
            then have "markup_end xs = None" using Cons by (simp add: markup_end_None_iff after_gt_None)
            then have "R = y # render_del (pieces inp MARKUP ys)"
              using Cons by (simp add: R_def pieces_MARKUP_keep)
            with yt show ?thesis by simp
          next
            case yf: False
            with None \<open>s = x # xs\<close> Cons True have "CHR ''>'' \<notin> set ys"
              by (simp add: markup_end_None_iff after_gt_None)
            with yf Cons have "CHR ''>'' \<notin> set xs" by simp
            with set_render_MARKUP[of inp xs] have "CHR ''>'' \<notin> set R"
              unfolding R_def by blast
            then show ?thesis by (cases R) (auto simp: markup_end_None_iff after_gt_None split: list.splits)
          qed
        qed
      qed
      with nR rs show ?thesis by simp
    qed
  qed
qed

lemma pieces_MARKUP_nomk: "nomk t \<Longrightarrow> pieces inp MARKUP t = map Keep t"
  by (induction t) (simp_all add: pieces_MARKUP_Nil pieces_MARKUP_keep del: markup_end.simps)



lemma nomk_filter:
  assumes "P CHR ''<''" "P CHR ''>''"
  shows "nomk t \<Longrightarrow> nomk (filter P t)"
proof (induction t)
  case Nil
  then show ?case by simp
next
  case (Cons x xs)
  then have ih: "nomk (filter P xs)" and me: "markup_end (x # xs) = None" by simp_all
  show ?case
  proof (cases "P x")
    case False
    with ih show ?thesis by simp
  next
    case True
    have "markup_end (x # filter P xs) = None"
    proof (cases "x = CHR ''<''")
      case False
      then show ?thesis by (simp add: markup_end_None_iff after_gt_None)
    next
      case xt: True
      show ?thesis
      proof (cases xs)
        case Nil
        then show ?thesis by simp
      next
        case (Cons y ys)
        show ?thesis
        proof (cases "y = CHR ''>''")
          case True
          with Cons assms show ?thesis by simp
        next
          case False
          with me xt Cons have "CHR ''>'' \<notin> set ys" by (simp add: markup_end_None_iff after_gt_None)
          with False Cons have "CHR ''>'' \<notin> set (filter P xs)" by auto
          then show ?thesis
            by (cases "filter P xs") (auto simp: markup_end_None_iff after_gt_None split: list.splits)
        qed
      qed
    qed
    with ih True show ?thesis by simp
  qed
qed

section \<open>TagNormalizer: the tag pattern\<close>

lemma ms_lits_open: "ms inp (lits ''{{'') (s, cs) = (if prefix ''{{'' s then [(drop 2 s, cs)] else [])"
proof (cases s)
  case Nil
  then show ?thesis by (simp add: ms_Seq)
next
  case (Cons x xs)
  then show ?thesis by (cases xs) (auto simp: ms_Seq)
qed

lemma ms_lits_close: "ms inp (lits ''}}'') (s, cs) = (if prefix ''}}'' s then [(drop 2 s, cs)] else [])"
proof (cases s)
  case Nil
  then show ?thesis by (simp add: ms_Seq)
next
  case (Cons x xs)
  then show ?thesis by (cases xs) (auto simp: ms_Seq)
qed

lemma lazy_group_step:
  "concat (map (\<lambda>st'. ms inp C (fst st', (1, take (length (p @ x # xs) - length (fst st')) (p @ x # xs)) # snd st'))
               (ms inp (LazyStar (Atom AnyChar)) (x # xs, cs)))
   = ms inp C (x # xs, (1, p) # cs)
     @ concat (map (\<lambda>st'. ms inp C (fst st', (1, take (length ((p @ [x]) @ xs) - length (fst st')) ((p @ [x]) @ xs)) # snd st'))
                   (ms inp (LazyStar (Atom AnyChar)) (xs, cs)))"
  by (simp add: ms_lazy_atom)

lemma lazy_group_Nil:
  "concat (map (\<lambda>st'. ms inp C (fst st', (1, take (length (p @ []) - length (fst st')) (p @ [])) # snd st'))
               (ms inp (LazyStar (Atom AnyChar)) ([], cs)))
   = ms inp C ([], (1, p) # cs)"
  by (simp add: ms_lazy_atom)

lemma lazy_close_first:
  "(case concat (map (\<lambda>st'. ms inp (lits ''}}'')
                        (fst st', (1, take (length (p @ t) - length (fst st')) (p @ t)) # snd st'))
                     (ms inp (LazyStar (Atom AnyChar)) (t, cs))) of
      [] \<Rightarrow> None | st # _ \<Rightarrow> Some st)
   = map_option (\<lambda>(c, r). (r, (1, p @ c) # cs)) (find_close t)"
proof (induction t arbitrary: p)
  case Nil
  have "ms inp (lits ''}}'') ([], (1, p) # cs) = []" unfolding ms_lits_close by simp
  then show ?case unfolding lazy_group_Nil by simp
next
  case (Cons x xs)
  define C where "C = lits ''}}''"
  define rest where "rest = concat (map (\<lambda>st'. ms inp C (fst st',
      (1, take (length ((p @ [x]) @ xs) - length (fst st')) ((p @ [x]) @ xs)) # snd st'))
      (ms inp (LazyStar (Atom AnyChar)) (xs, cs)))"
  have ih: "(case rest of [] \<Rightarrow> None | st # _ \<Rightarrow> Some st)
      = map_option (\<lambda>(c, r). (r, (1, (p @ [x]) @ c) # cs)) (find_close xs)"
    unfolding rest_def C_def by (rule Cons.IH)
  have step: "concat (map (\<lambda>st'. ms inp C (fst st',
        (1, take (length (p @ x # xs) - length (fst st')) (p @ x # xs)) # snd st'))
        (ms inp (LazyStar (Atom AnyChar)) (x # xs, cs)))
      = ms inp C (x # xs, (1, p) # cs) @ rest"
    unfolding rest_def by (rule lazy_group_step)
  show ?case
  proof (cases "prefix ''}}'' (x # xs)")
    case True
    have "ms inp C (x # xs, (1, p) # cs) = [(drop 2 (x # xs), (1, p) # cs)]"
      unfolding C_def ms_lits_close by (simp only: True if_True)
    moreover have "find_close (x # xs) = Some ([], drop 2 (x # xs))"
      by (simp only: find_close.simps True if_True)
    ultimately show ?thesis
      unfolding C_def[symmetric] step by (simp del: find_close.simps drop_Suc_Cons)
  next
    case False
    have "ms inp C (x # xs, (1, p) # cs) = []"
      unfolding C_def ms_lits_close by (simp only: False if_False)
    moreover have "find_close (x # xs) = map_option (\<lambda>(c, r). (x # c, r)) (find_close xs)"
      by (simp only: find_close.simps False if_False)
    ultimately show ?thesis
      unfolding C_def[symmetric] step using ih
      by (simp add: option.map_comp comp_def split_def del: find_close.simps)
  qed
qed

lemma ms_tag_body:
  "ms inp (Seq (Grp 1 (LazyStar (Atom AnyChar))) (lits ''}}'')) (t, cs)
     = concat (map (\<lambda>st'. ms inp (lits ''}}'')
                 (fst st', (1, take (length ([] @ t) - length (fst st')) ([] @ t)) # snd st'))
               (ms inp (LazyStar (Atom AnyChar)) (t, cs)))"
  unfolding ms_Seq by (simp add: comp_def del: lits.simps)

lemma match_at_tagRegex:
  "match_at inp tagRegex s = map_option (\<lambda>(c, r). (r, [(1, c)])) (tag_match s)"
proof -
  have e: "ms inp tagRegex (s, [])
      = concat (map (ms inp (Seq (Grp 1 (LazyStar (Atom AnyChar))) (lits ''}}'')))
          (ms inp (lits ''{{'') (s, [])))"
    unfolding tagRegex_def by (simp add: ms_Seq del: lits.simps)
  show ?thesis
  proof (cases "prefix ''{{'' s")
    case True
    have "ms inp tagRegex (s, [])
        = ms inp (Seq (Grp 1 (LazyStar (Atom AnyChar))) (lits ''}}'')) (drop 2 s, [])"
      unfolding e ms_lits_open by (simp only: True if_True) simp
    then have "match_at inp tagRegex s
        = map_option (\<lambda>(c, r). (r, (1, [] @ c) # [])) (find_close (drop 2 s))"
      unfolding match_at_def ms_tag_body by (simp only: lazy_close_first)
    with True show ?thesis by (simp add: tag_match_def)
  next
    case False
    have "ms inp tagRegex (s, []) = []"
      unfolding e ms_lits_open by (simp only: False if_False) simp
    with False show ?thesis by (simp add: match_at_def tag_match_def)
  qed
qed

lemma find_close_split: "find_close t = Some (c, r) \<Longrightarrow> t = c @ ''}}'' @ r"
proof (induction t arbitrary: c)
  case Nil
  then show ?case by simp
next
  case (Cons x xs)
  show ?case
  proof (cases "x = CHR ''}'' \<and> prefix ''}'' xs")
    case True
    with Cons.prems have "c = []" "r = drop 1 xs" by simp_all
    with True show ?thesis by (auto simp: prefix_def)
  next
    case False
    with Cons.prems obtain c' where c': "find_close xs = Some (c', r)" "c = x # c'"
      by (auto split: option.splits if_splits)
    from Cons.IH[OF c'(1)] c'(2) show ?thesis by simp
  qed
qed

lemma find_close_nobrace:
  "CHR ''}'' \<notin> set u \<Longrightarrow> find_close (u @ ''}}'' @ r) = Some (u, r)"
  by (induction u) auto

lemma find_close_None_drop: "find_close t = None \<Longrightarrow> find_close (drop k t) = None"
proof (induction t arbitrary: k)
  case Nil
  then show ?case by simp
next
  case (Cons x xs)
  then have "find_close xs = None" by (auto split: if_splits)
  with Cons show ?case by (cases k) auto
qed

lemma tag_match_split: "tag_match s = Some (c, r) \<Longrightarrow> s = ''{{'' @ c @ ''}}'' @ r"
proof -
  assume a: "tag_match s = Some (c, r)"
  then have p: "prefix ''{{'' s" and f: "find_close (drop 2 s) = Some (c, r)"
    by (simp_all add: tag_match_def split: if_splits)
  from p obtain t where t: "s = ''{{'' @ t" by (auto simp: prefix_def)
  then have "drop 2 s = t" by simp
  with find_close_split[OF f] t show ?thesis by simp
qed

lemma tag_match_length: "tag_match s = Some (c, r) \<Longrightarrow> length r < length s"
  by (drule tag_match_split) simp

lemma pieces_tag_Nil: "pieces inp tagRegex [] = []"
  by (rule pieces_Nil_nomatch) (simp add: match_at_tagRegex tag_match_def)

lemma pieces_tag_keep:
  "tag_match (x # xs) = None \<Longrightarrow> pieces inp tagRegex (x # xs) = Keep x # pieces inp tagRegex xs"
  by (rule pieces_Cons_nomatch) (simp add: match_at_tagRegex)

lemma pieces_tag_match:
  assumes "tag_match s = Some (c, r)"
  shows "pieces inp tagRegex s = Match (''{{'' @ c @ ''}}'') [(1, c)] # pieces inp tagRegex r"
proof -
  have m: "match_at inp tagRegex s = Some (r, [(1, c)])"
    by (simp add: match_at_tagRegex assms)
  define a where "a = ''{{'' @ c @ ''}}''"
  have s: "s = a @ r" using tag_match_split[OF assms] by (simp add: a_def)
  have "take (length s - length r) s = a" unfolding s by simp
  then have "take (length s - length r) s = ''{{'' @ c @ ''}}''" by (simp only: a_def)
  with pieces_match[OF m tag_match_length[OF assms]] show ?thesis by simp
qed

lemma find_close_Cons_None: "find_close (x # xs) = None \<Longrightarrow> find_close xs = None"
  by (auto split: if_splits)

lemma pieces_tag_noclose: "find_close s = None \<Longrightarrow> pieces inp tagRegex s = map Keep s"
proof (induction s)
  case Nil
  then show ?case by (simp add: pieces_tag_Nil)
next
  case (Cons x xs)
  have "find_close (drop 2 (x # xs)) = None" by (rule find_close_None_drop[OF Cons.prems])
  then have "tag_match (x # xs) = None" by (simp add: tag_match_def)
  from pieces_tag_keep[OF this] Cons.IH[OF find_close_Cons_None[OF Cons.prems]]
  show ?case by simp
qed

lemma replace_all_atom_del:
  "replace_all (Atom (Is a)) (\<lambda>m cs. []) s = filter (\<lambda>c. c \<noteq> a) s"
  unfolding replace_all_def pieces_atom by (induction s) simp_all

lemma replace_all_render_del: "replace_all r (\<lambda>m cs. []) s = render_del (pieces s r s)"
  by (simp add: replace_all_def render_del_def)

lemma cleanContent_eq:
  "cleanContent c = filter (\<lambda>c. c \<noteq> CHR ''}'') (filter (\<lambda>c. c \<noteq> CHR ''{'')
                      (render_del (pieces c MARKUP c)))"
  unfolding cleanContent_def replace_all_atom_del by (simp only: replace_all_render_del)

lemma cleanContent_nobrace:
  "CHR ''{'' \<notin> set (cleanContent c)" "CHR ''}'' \<notin> set (cleanContent c)"
  by (simp_all add: cleanContent_eq)

lemma cleanContent_nomk: "nomk (cleanContent c)"
  unfolding cleanContent_eq
  by (intro nomk_filter nomk_render_MARKUP) simp_all

lemma render_del_Keep: "render_del (map Keep t) = t"
  by (induction t) simp_all

lemma filter_id_notin: "a \<notin> set t \<Longrightarrow> filter (\<lambda>c. c \<noteq> a) t = t"
  by (induction t) auto

lemma cleanContent_fixed:
  assumes "nomk t" "CHR ''{'' \<notin> set t" "CHR ''}'' \<notin> set t"
  shows "cleanContent t = t"
  unfolding cleanContent_eq pieces_MARKUP_nomk[OF assms(1)] render_del_Keep
  using assms(2,3) by (simp add: filter_id_notin)

lemma cleanContent_idem: "cleanContent (cleanContent c) = cleanContent c"
  by (rule cleanContent_fixed) (rule cleanContent_nomk cleanContent_nobrace)+

lemma render_tags_simps [simp]:
  "render_tags [] = []" "render_tags (Keep c # ps) = c # render_tags ps"
  "render_tags (Match m cs # ps) = ''{{'' @ cleanContent (cap 1 cs) @ ''}}'' @ render_tags ps"
  by (simp_all add: render_tags_def)

lemma render_tags_Keep: "render_tags (map Keep t) = t"
  by (induction t) simp_all

lemma cap_single: "cap n [(n, v)] = v"
  by (simp add: cap_def)

lemma reemit_simps [simp]:
  "reemit (Keep c) = Keep c"
  "reemit (Match m cs) = Match (''{{'' @ cleanContent (cap 1 cs) @ ''}}'') [(1, cleanContent (cap 1 cs))]"
  by (simp_all add: reemit_def)

lemma consolidateTags_render: "consolidateTags xml = render_tags (pieces xml tagRegex xml)"
  unfolding consolidateTags_def replace_all_def render_tags_def ..

lemma tag_match_clean:
  "tag_match (''{{'' @ cleanContent c @ ''}}'' @ R) = Some (cleanContent c, R)"
proof -
  have "find_close (cleanContent c @ ''}}'' @ R) = Some (cleanContent c, R)"
    by (rule find_close_nobrace) (rule cleanContent_nobrace)
  then show ?thesis by (simp add: tag_match_def)
qed

lemma pieces_render_tags:
  "pieces inp' tagRegex (render_tags (pieces inp tagRegex s)) = map reemit (pieces inp tagRegex s)"
proof (induction s rule: length_induct)
  case (1 s)
  show ?case
  proof (cases "tag_match s")
    case (Some cr)
    obtain c r where cr: "cr = (c, r)" by (cases cr)
    with Some have tm: "tag_match s = Some (c, r)" by simp
    define R where "R = render_tags (pieces inp tagRegex r)"
    have ih: "pieces inp' tagRegex R = map reemit (pieces inp tagRegex r)"
      unfolding R_def using 1 tag_match_length[OF tm] by blast
    have ps: "pieces inp tagRegex s = Match (''{{'' @ c @ ''}}'') [(1, c)] # pieces inp tagRegex r"
      by (rule pieces_tag_match[OF tm])
    have rs: "render_tags (pieces inp tagRegex s) = ''{{'' @ cleanContent c @ ''}}'' @ R"
      unfolding ps R_def by (simp add: cap_single)
    have "pieces inp' tagRegex (''{{'' @ cleanContent c @ ''}}'' @ R)
        = Match (''{{'' @ cleanContent c @ ''}}'') [(1, cleanContent c)] # pieces inp' tagRegex R"
      by (rule pieces_tag_match[OF tag_match_clean])
    then show ?thesis unfolding rs unfolding ps ih by (simp add: cap_single)
  next
    case None
    show ?thesis
    proof (cases s)
      case Nil
      then show ?thesis by (simp add: pieces_tag_Nil)
    next
      case (Cons x xs)
      show ?thesis
      proof (cases "prefix ''{{'' s")
        case True
        with None have "find_close (drop 2 s) = None" by (simp add: tag_match_def)
        moreover from True obtain t where "s = CHR ''{'' # CHR ''{'' # t" by (auto simp: prefix_def)
        ultimately have "find_close s = None" by simp
        then have "\<And>i. pieces i tagRegex s = map Keep s" by (rule pieces_tag_noclose)
        then show ?thesis by (simp add: render_tags_Keep)
      next
        case False
        define R where "R = render_tags (pieces inp tagRegex xs)"
        have ih: "pieces inp' tagRegex R = map reemit (pieces inp tagRegex xs)"
          unfolding R_def using 1 Cons by simp
        have ps: "pieces inp tagRegex s = Keep x # pieces inp tagRegex xs"
          using None Cons by (simp add: pieces_tag_keep)
        have rs: "render_tags (pieces inp tagRegex s) = x # R"
          unfolding ps R_def by simp
        have "\<not> prefix ''{{'' (x # R)"
        proof (cases "x = CHR ''{''")
          case xb: True
          show ?thesis
          proof (cases xs)
            case Nil
            then have "R = []" by (simp add: R_def pieces_tag_Nil)
            then show ?thesis by simp
          next
            case (Cons y ys)
            with False xb \<open>s = x # xs\<close> have y: "y \<noteq> CHR ''{''" by auto
            then have "tag_match (y # ys) = None" by (simp add: tag_match_def)
            then have "R = y # render_tags (pieces inp tagRegex ys)"
              unfolding R_def Cons by (simp add: pieces_tag_keep)
            with y show ?thesis by auto
          qed
        next
          case False
          then show ?thesis by auto
        qed
        then have "tag_match (x # R) = None" unfolding tag_match_def by (simp only: if_False)
        from pieces_tag_keep[OF this, of inp'] show ?thesis unfolding rs unfolding ps by (simp add: ih)
      qed
    qed
  qed
qed


lemma render_tags_reemit: "render_tags (map reemit ps) = render_tags ps"
proof (induction ps)
  case Nil
  then show ?case by simp
next
  case (Cons p ps)
  then show ?case by (cases p) (simp_all add: cap_single cleanContent_idem)
qed


lemma consolidateTags_idem: "consolidateTags (consolidateTags y) = consolidateTags y"
  unfolding consolidateTags_render pieces_render_tags render_tags_reemit ..

section \<open>TagNormalizer.normalize\<close>






lemma triple_first:
  "normalize ''<w:p><w:r><w:t>{{a}}</w:t></w:r><w:r><w:t>{</w:t></w:r><w:r><w:t>{</w:t></w:r><w:r><w:t>{</w:t></w:r></w:p>'' True
     = ''<w:p><w:r><w:t>{{a}}</w:t></w:r><w:r><w:t>{{</w:t></w:r><w:r><w:t>{</w:t></w:r></w:p>''"
  by code_simp

lemma triple_second:
  "normalize ''<w:p><w:r><w:t>{{a}}</w:t></w:r><w:r><w:t>{{</w:t></w:r><w:r><w:t>{</w:t></w:r></w:p>'' True
     = ''<w:p><w:r><w:t>{{a}}</w:t></w:r><w:r><w:t>{{{</w:t></w:r></w:p>''"
  by code_simp

lemma single_first: "normalize ''<w:pro<w:lang/>ofErr/>'' False = ''<w:proofErr/>''"
  by code_simp

lemma single_second: "normalize ''<w:proofErr/>'' False = []"
  by code_simp

lemma triple_detect:
  "fst (delimiterConfig (detectDelimiters (Archive [docPath \<mapsto>
      ''<w:p><w:r><w:t>{{a}}</w:t></w:r><w:r><w:t>{</w:t></w:r><w:r><w:t>{</w:t></w:r><w:r><w:t>{</w:t></w:r></w:p>''])
      new_manager)) = ''{{''"
  by code_simp

lemma healed_example:
  "normalize ''<w:r><w:t>{{na</w:t></w:r><w:proofErr/><w:r><w:t>me}}</w:t></w:r>'' True
     = ''<w:r><w:t>{{name}}</w:t></w:r>''"
  by code_simp

lemma healed_no_noise:
  "\<forall>p\<in>set noisePatterns. matches_of p ''<w:r><w:t>{{name}}</w:t></w:r>'' = []"
  by code_simp

lemma healed_no_split:
  "matches_of (split_rx CHR ''{'') ''<w:r><w:t>{{name}}</w:t></w:r>'' = []"
  "matches_of (split_rx CHR ''}'') ''<w:r><w:t>{{name}}</w:t></w:r>'' = []"
  by code_simp+


lemma pieces_no_hits: "hits (pieces inp r s) = [] \<Longrightarrow> pieces inp r s = map Keep s"
proof (induction s)
  case Nil
  then show ?case by (subst (asm) pieces.simps, subst pieces.simps) (simp split: option.splits if_splits)
next
  case (Cons x xs)
  show ?case
  proof (cases "match_at inp r (x # xs)")
    case None
    from pieces_Cons_nomatch[OF None] Cons show ?thesis by simp
  next
    case (Some st)
    with Cons.prems show ?thesis
      by (subst (asm) pieces.simps) (simp split: if_splits)
  qed
qed

lemma replace_all_no_match: "matches_of r s = [] \<Longrightarrow> replace_all r f s = s"
proof -
  assume "matches_of r s = []"
  then have "pieces s r s = map Keep s" unfolding matches_of_def by (rule pieces_no_hits)
  then show ?thesis unfolding replace_all_def by (simp add: comp_def)
qed

lemma foldl_replace_all_fixed:
  "\<forall>p\<in>set ps. matches_of p y = [] \<Longrightarrow> foldl (\<lambda>cleaned pattern. replace_all pattern f cleaned) y ps = y"
  by (induction ps) (simp_all add: replace_all_no_match)

lemma removeNoiseTags_fixed:
  "\<forall>p\<in>set noisePatterns. matches_of p y = [] \<Longrightarrow> removeNoiseTags y = y"
  unfolding removeNoiseTags_def by (rule foldl_replace_all_fixed)

lemma repairSplitDelimiters_fixed:
  "matches_of (split_rx CHR ''{'') y = [] \<Longrightarrow> matches_of (split_rx CHR ''}'') y = [] \<Longrightarrow>
   repairSplitDelimiters y = y"
  by (simp add: repairSplitDelimiters_def Let_def replace_all_no_match)

lemma normalize_double:
  "normalize xml True = consolidateTags (repairSplitDelimiters (removeNoiseTags xml))"
  by (simp add: normalize_def removeDuplicateDelimiters_def Let_def)

lemma normalize_single: "normalize xml False = removeNoiseTags xml"
  by (simp add: normalize_def Let_def)




text \<open>
  C8. The last stage, consolidateTags, is idempotent on every string. The normalizer as a
  whole returns its own output unchanged whenever that output holds no match of a noise
  pattern and, in double-marker mode, no match of the two split-delimiter patterns. The
  condition cannot be dropped: a first pass can create text that a second pass rewrites.
\<close>

theorem normalize_idempotent_when_settled:
  "consolidateTags (consolidateTags y) = consolidateTags y
   \<and> ((\<forall>p\<in>set noisePatterns. matches_of p (normalize x d) = [])
        \<and> (d \<longrightarrow> matches_of (split_rx CHR ''{'') (normalize x d) = []
                \<and> matches_of (split_rx CHR ''}'') (normalize x d) = [])
      \<longrightarrow> normalize (normalize x d) d = normalize x d)"
proof (intro conjI impI)
  show "consolidateTags (consolidateTags y) = consolidateTags y" by (rule consolidateTags_idem)
next
  define n where "n = normalize x d"
  assume "(\<forall>p\<in>set noisePatterns. matches_of p (normalize x d) = [])
        \<and> (d \<longrightarrow> matches_of (split_rx CHR ''{'') (normalize x d) = []
                \<and> matches_of (split_rx CHR ''}'') (normalize x d) = [])"
  then have noise: "removeNoiseTags n = n"
    and split: "d \<Longrightarrow> repairSplitDelimiters n = n"
    unfolding n_def by (simp_all add: removeNoiseTags_fixed repairSplitDelimiters_fixed)
  show "normalize (normalize x d) d = normalize x d"
  proof (cases d)
    case False
    with noise show ?thesis unfolding n_def by (simp add: normalize_single)
  next
    case True
    have "normalize n True = consolidateTags n"
      unfolding normalize_double by (simp only: noise split[OF True])
    also have "n = consolidateTags (repairSplitDelimiters (removeNoiseTags x))"
      unfolding n_def using True by (simp add: normalize_double)
    finally show ?thesis using True unfolding n_def by (simp add: normalize_double consolidateTags_idem)
  qed
qed

theorem normalize_idempotent_when_settled_witness:
  "normalize ''<w:r><w:t>{{na</w:t></w:r><w:proofErr/><w:r><w:t>me}}</w:t></w:r>'' True
     = ''<w:r><w:t>{{name}}</w:t></w:r>''
   \<and> normalize (normalize ''<w:r><w:t>{{na</w:t></w:r><w:proofErr/><w:r><w:t>me}}</w:t></w:r>'' True) True
     = normalize ''<w:r><w:t>{{na</w:t></w:r><w:proofErr/><w:r><w:t>me}}</w:t></w:r>'' True"
proof -
  define X where "X = ''<w:r><w:t>{{na</w:t></w:r><w:proofErr/><w:r><w:t>me}}</w:t></w:r>''"
  have n: "normalize X True = ''<w:r><w:t>{{name}}</w:t></w:r>''"
    unfolding X_def by (rule healed_example)
  have h: "(\<forall>p\<in>set noisePatterns. matches_of p (normalize X True) = [])
        \<and> (True \<longrightarrow> matches_of (split_rx CHR ''{'') (normalize X True) = []
                \<and> matches_of (split_rx CHR ''}'') (normalize X True) = [])"
    unfolding n using healed_no_noise healed_no_split by (intro conjI impI)
  from normalize_idempotent_when_settled[of _ X True, THEN conjunct2, THEN mp, OF h] n
  show ?thesis unfolding X_def by (intro conjI)
qed

theorem normalize_not_idempotent_counterexample:
  "normalize ''<w:p><w:r><w:t>{{a}}</w:t></w:r><w:r><w:t>{</w:t></w:r><w:r><w:t>{</w:t></w:r><w:r><w:t>{</w:t></w:r></w:p>'' True
     = ''<w:p><w:r><w:t>{{a}}</w:t></w:r><w:r><w:t>{{</w:t></w:r><w:r><w:t>{</w:t></w:r></w:p>''
   \<and> normalize ''<w:p><w:r><w:t>{{a}}</w:t></w:r><w:r><w:t>{{</w:t></w:r><w:r><w:t>{</w:t></w:r></w:p>'' True
     = ''<w:p><w:r><w:t>{{a}}</w:t></w:r><w:r><w:t>{{{</w:t></w:r></w:p>''
   \<and> normalize (normalize ''<w:p><w:r><w:t>{{a}}</w:t></w:r><w:r><w:t>{</w:t></w:r><w:r><w:t>{</w:t></w:r><w:r><w:t>{</w:t></w:r></w:p>'' True) True
     \<noteq> normalize ''<w:p><w:r><w:t>{{a}}</w:t></w:r><w:r><w:t>{</w:t></w:r><w:r><w:t>{</w:t></w:r><w:r><w:t>{</w:t></w:r></w:p>'' True
   \<and> fst (delimiterConfig (detectDelimiters (Archive [docPath \<mapsto>
      ''<w:p><w:r><w:t>{{a}}</w:t></w:r><w:r><w:t>{</w:t></w:r><w:r><w:t>{</w:t></w:r><w:r><w:t>{</w:t></w:r></w:p>''])
      new_manager)) = ''{{''
   \<and> normalize ''<w:pro<w:lang/>ofErr/>'' False = ''<w:proofErr/>''
   \<and> normalize ''<w:proofErr/>'' False = []"
  unfolding triple_first triple_second triple_detect single_first single_second by simp

section \<open>TagNormalizer: the stages on examples\<close>

lemma removeNoiseTags_all_patterns:
  "removeNoiseTags (concat
     [''a<w:proofErr w:type=x/>'', ''b<w:noProof/>'', ''c<w:lang/>'',
      ''d<w:bookmarkStart/>'', ''e<w:bookmarkEnd/>'',
      ''f<w:commentRangeStart/>'', ''g<w:commentRangeEnd/>'',
      ''h<w:permStart/>'', ''i<w:permEnd/>'',
      ''j<w:moveFromRangeStart/>'', ''k<w:moveFromRangeEnd/>'',
      ''l<w:moveToRangeStart/>'', ''m<w:moveToRangeEnd/>'',
      ''n<w:rsidR/>'', ''o<w:b/>p''])
   = ''abcdefghijklmno<w:b/>p''"
  by code_simp

lemma repairSplitDelimiters_examples:
  "repairSplitDelimiters ''{</w:t><w:t>{a}</w:t><w:t>}'' = ''{{a}}''"
  "repairSplitDelimiters ''{ </w:t><w:t> {a} <b> }'' = ''{{a}}''"
  "repairSplitDelimiters ''{x<b>{a}<b>y}'' = ''{x<b>{a}<b>y}''"
  "repairSplitDelimiters ''{<a>{<b>{'' = ''{{<b>{''"
  by code_simp+

end
